theory Spec2Isabelle
  imports Main "HOL-Library.Word"
begin

section \<open>Data model (src/lib/types.ts)\<close>

text \<open>
  A JavaScript string is a sequence of UTF-16 code units. The organisation URL is the
  one string the code inspects unit by unit (\<^verbatim>\<open>trim\<close>, the regular expression,
  \<^verbatim>\<open>startsWith\<close>), so it is a list of code units, each a 16-bit word. The other
  strings are only copied, compared and concatenated; they are lists of 8-bit
  characters. \<open>lit\<close> reads a literal as code units.
\<close>

type_synonym codeUnit = "16 word"

type_synonym jsString = "codeUnit list"

definition lit :: "string \<Rightarrow> jsString" where
  "lit s = map of_char s"

text \<open>
  The interfaces of \<^verbatim>\<open>types.ts\<close> as records. \<^verbatim>\<open>CompanyResult\<close> repeats the two
  fields of \<^verbatim>\<open>CompanyInput\<close> and is a structural subtype of it, so it is the record
  extension. The optional \<^verbatim>\<open>error?: string\<close> is an option. Counts are lengths of
  arrays and sums of them, hence natural numbers.
\<close>

record CompanyInput =
  company_name :: string
  github_org_url :: jsString

record RepoCommitData =
  repoName :: string
  repoUrl :: string
  commitCount :: nat

record CompanyResult = CompanyInput +
  most_active_repo :: string
  most_active_repo_url :: string
  commit_count :: nat
  top_contributor :: string
  error :: "string option"

datatype ProgressEventType = Progress | Result | Error | Done

record ProgressEvent =
  type :: ProgressEventType
  company :: "string option"
  message :: string
  result :: "CompanyResult option"
  completed :: "nat option"
  total :: "nat option"

section \<open>Strings\<close>

text \<open>
  \<^verbatim>\<open>String.prototype.trim\<close> removes white space and line terminators from both ends.
  White space is TAB (U+0009), VT (U+000B), FF (U+000C), ZWNBSP (U+FEFF) and the space
  separators SPACE (U+0020), NBSP (U+00A0), U+1680, U+2000 to U+200A, U+202F, U+205F and
  U+3000; the line terminators are LF (U+000A), CR (U+000D), U+2028 and U+2029. Each is
  one code unit.
\<close>

definition isWhiteSpace :: "codeUnit \<Rightarrow> bool" where
  "isWhiteSpace c =
     (c \<in> {9, 10, 11, 12, 13, 32, 160, 5760, 8232, 8233, 8239, 8287, 12288, 65279} \<or>
      (8192 \<le> c \<and> c \<le> 8202))"

definition trim :: "jsString \<Rightarrow> jsString" where
  "trim s = rev (dropWhile isWhiteSpace (rev (dropWhile isWhiteSpace s)))"

text \<open>\<^verbatim>\<open>s.replace(/\/+$/, "")\<close>: the maximal run of slashes at the end is removed.\<close>

definition slash :: codeUnit where
  "slash = of_char CHR ''/''"

definition stripTrailingSlashes :: "jsString \<Rightarrow> jsString" where
  "stripTrailingSlashes s = rev (dropWhile (\<lambda>c. c = slash) (rev s))"

text \<open>\<^verbatim>\<open>s.startsWith(p)\<close> and \<^verbatim>\<open>s.includes(p)\<close> (\<open>includes\<close> is a keyword of Isabelle, hence \<open>includesStr\<close>).\<close>

fun startsWith :: "'a list \<Rightarrow> 'a list \<Rightarrow> bool" where
  "startsWith s [] = True"
| "startsWith [] (p # ps) = False"
| "startsWith (c # cs) (p # ps) = (c = p \<and> startsWith cs ps)"

fun includesStr :: "'a list \<Rightarrow> 'a list \<Rightarrow> bool" where
  "includesStr [] p = startsWith [] p"
| "includesStr (c # cs) p = (startsWith (c # cs) p \<or> includesStr cs p)"

text \<open>
  \<^verbatim>\<open>s.split(sep)\<close> for a one-character separator: the pieces between the separators,
  empty pieces included; the empty string splits into one empty piece.
\<close>

fun split :: "char \<Rightarrow> string \<Rightarrow> string list" where
  "split sep [] = [[]]"
| "split sep (c # cs) =
     (if c = sep then [] # split sep cs
      else (case split sep cs of
              [] \<Rightarrow> [[c]]
            | p # ps \<Rightarrow> (c # p) # ps))"

text \<open>Decimal rendering of a number inside a template literal.\<close>

fun digitChar :: "nat \<Rightarrow> char" where
  "digitChar n = char_of (48 + n)"

fun showNat :: "nat \<Rightarrow> string" where
  "showNat n = (if n < 10 then [digitChar n] else showNat (n div 10) @ [digitChar (n mod 10)])"

declare showNat.simps [simp del]

section \<open>OrgResolver: extractOrgName (src/lib/github.ts, lines 7-19)\<close>

text \<open>
  The platform's \<^verbatim>\<open>URL\<close> constructor is not code of the repository. It is a parameter
  \<open>parse\<close>: \<open>None\<close> when the constructor throws, otherwise the two properties the
  function reads. The URL standard serialises host and path in ASCII (Punycode and
  percent-encoding), so both are lists of 8-bit characters.
\<close>

record URL =
  hostname :: string
  pathname :: string

type_synonym urlParser = "jsString \<Rightarrow> URL option"

text \<open>The argument of \<^verbatim>\<open>new URL(...)\<close> at line 10-12.\<close>

definition urlArgument :: "jsString \<Rightarrow> jsString" where
  "urlArgument url =
     (let cleaned = stripTrailingSlashes (trim url)
      in if startsWith cleaned (lit ''http'') then cleaned else lit ''https://'' @ cleaned)"

definition extractOrgName :: "urlParser \<Rightarrow> jsString \<Rightarrow> string option" where
  "extractOrgName parse url =
     (case parse (urlArgument url) of
        None \<Rightarrow> None
      | Some urlObj \<Rightarrow>
          if \<not> includesStr (hostname urlObj) ''github.com'' then None
          else (case filter (\<lambda>p. p \<noteq> []) (split CHR ''/'' (pathname urlObj)) of
                  [] \<Rightarrow> None
                | p # ps \<Rightarrow> Some p))"

section \<open>The remote API seen through the client\<close>

text \<open>
  \<^verbatim>\<open>createOctokit\<close> builds the client from the bearer token; every remote call of the
  pipeline is a method of that client. The client library and the remote side are not
  code of the repository. They are a parameter: a record of the three methods the
  pipeline calls, each answering a call made on a client either with the \<^verbatim>\<open>data\<close>
  array or with the value the awaited call throws, whether the failure comes from the
  remote side or from the library itself. The fixed request parameters (sort order,
  \<^verbatim>\<open>per_page\<close>, \<^verbatim>\<open>type\<close>) are part of the method; the retry callbacks of the
  throttling plugin act inside a call.
\<close>

record OctokitInstance =
  auth :: string

definition createOctokit :: "string \<Rightarrow> OctokitInstance" where
  "createOctokit token = \<lparr>auth = token\<rparr>"

text \<open>
  A thrown value as the code inspects it: whether it is an \<^verbatim>\<open>instanceof Error\<close>, its
  \<^verbatim>\<open>status\<close> if it has one, and its \<^verbatim>\<open>message\<close>.
\<close>

datatype remote_error =
  RemoteError (instanceofError: bool) (status: "nat option") (errorMessage: string)

text \<open>
  What an awaited pipeline can throw: a failure of a remote call, or the \<^verbatim>\<open>TypeError\<close>
  of \<^verbatim>\<open>Array.prototype.reduce\<close> on an empty array without an initial value.
\<close>

datatype thrown = Remote remote_error | ReduceOfEmptyArray

record RepoListItem =
  name :: string
  html_url :: string
  fork :: bool

text \<open>
  A commit of a listing, as far as the code reads it: \<^verbatim>\<open>commit.author?.login\<close> and
  \<^verbatim>\<open>commit.commit?.author?.name\<close>, each possibly absent.
\<close>

record Commit =
  author_login :: "string option"
  commit_author_name :: "string option"

record RemoteAPI =
  listForOrg :: "OctokitInstance \<Rightarrow> string \<Rightarrow> remote_error + RepoListItem list"
  listForUser :: "OctokitInstance \<Rightarrow> string \<Rightarrow> remote_error + RepoListItem list"
  listCommits :: "OctokitInstance \<Rightarrow> string \<Rightarrow> string \<Rightarrow> string \<Rightarrow> nat \<Rightarrow> remote_error + Commit list"

section \<open>RepoDiscovery: listOrgRepos (lines 55-92)\<close>

definition listOrgRepos ::
  "RemoteAPI \<Rightarrow> OctokitInstance \<Rightarrow> string \<Rightarrow> remote_error + RepoListItem list" where
  "listOrgRepos w octokit orgName =
     (case listForOrg w octokit orgName of
        Inr data \<Rightarrow>
          Inr (map (\<lambda>r. \<lparr>name = name r, html_url = html_url r, fork = fork r\<rparr>) data)
      | Inl err \<Rightarrow>
          if status err = Some 404 then
            (case listForUser w octokit orgName of
               Inr data \<Rightarrow>
                 Inr (map (\<lambda>r. \<lparr>name = name r, html_url = html_url r, fork = fork r\<rparr>)
                        (filter (\<lambda>r. \<not> fork r) data))
             | Inl err2 \<Rightarrow> Inl err2)
          else Inl err)"

section \<open>CommitCounter: getRepoCommitCount (lines 94-120)\<close>

definition MAX_COMMITS :: nat where
  "MAX_COMMITS = 500"

text \<open>
  The \<^verbatim>\<open>while\<close> loop with its two variables \<open>count\<close> and \<open>page\<close>. The calls of
  \<^verbatim>\<open>listCommits\<close> are its effect: \<open>reqs\<close> records the page numbers requested so far,
  in order, and is returned beside the final count.
\<close>

function commitCountLoop ::
  "RemoteAPI \<Rightarrow> OctokitInstance \<Rightarrow> string \<Rightarrow> string \<Rightarrow> string \<Rightarrow> nat \<Rightarrow> nat \<Rightarrow> nat list
     \<Rightarrow> remote_error + (nat \<times> nat list)" where
  "commitCountLoop w octokit owner repo since count page reqs =
     (if count < MAX_COMMITS then
        (case listCommits w octokit owner repo since page of
           Inl err \<Rightarrow> Inl err
         | Inr data \<Rightarrow>
             if length data = 0 then Inr (count, reqs @ [page])
             else if length data < 100 then Inr (count + length data, reqs @ [page])
             else commitCountLoop w octokit owner repo since
                    (count + length data) (page + 1) (reqs @ [page]))
      else Inr (count, reqs))"
  by pat_completeness auto
termination
  by (relation "measure (\<lambda>(w, octokit, owner, repo, since, count, page, reqs). MAX_COMMITS - count)")
     (auto simp: MAX_COMMITS_def)

declare commitCountLoop.simps [simp del]

definition getRepoCommitCount ::
  "RemoteAPI \<Rightarrow> OctokitInstance \<Rightarrow> string \<Rightarrow> string \<Rightarrow> string \<Rightarrow> remote_error + nat" where
  "getRepoCommitCount w octokit owner repo since =
     (case commitCountLoop w octokit owner repo since 0 1 [] of
        Inl err \<Rightarrow> Inl err
      | Inr (count, reqs) \<Rightarrow> Inr (min count MAX_COMMITS))"

text \<open>The pages \<^verbatim>\<open>getRepoCommitCount\<close> requested, when no request failed.\<close>

definition commitPagesRequested ::
  "RemoteAPI \<Rightarrow> OctokitInstance \<Rightarrow> string \<Rightarrow> string \<Rightarrow> string \<Rightarrow> remote_error + nat list" where
  "commitPagesRequested w octokit owner repo since =
     (case commitCountLoop w octokit owner repo since 0 1 [] of
        Inl err \<Rightarrow> Inl err
      | Inr (count, reqs) \<Rightarrow> Inr reqs)"

section \<open>ContributorResolver: getTopContributor (lines 122-165)\<close>

definition MAX_PAGES :: nat where
  "MAX_PAGES = 5"

text \<open>
  \<^verbatim>\<open>a || b || "unknown"\<close>: an absent value and the empty string are both falsy.
\<close>

definition authorKey :: "Commit \<Rightarrow> string" where
  "authorKey commit =
     (case author_login commit of
        Some l \<Rightarrow>
          if l \<noteq> [] then l
          else (case commit_author_name commit of
                  Some n \<Rightarrow> if n \<noteq> [] then n else ''unknown''
                | None \<Rightarrow> ''unknown'')
      | None \<Rightarrow>
          (case commit_author_name commit of
             Some n \<Rightarrow> if n \<noteq> [] then n else ''unknown''
           | None \<Rightarrow> ''unknown''))"

text \<open>
  A \<^verbatim>\<open>Map\<close> iterates in insertion order and \<^verbatim>\<open>set\<close> on a present key keeps the key's
  position: an association list, updated in place or extended at the end.
\<close>

fun mapSet :: "('k \<times> 'v) list \<Rightarrow> 'k \<Rightarrow> 'v \<Rightarrow> ('k \<times> 'v) list" where
  "mapSet [] k v = [(k, v)]"
| "mapSet ((k', v') # m) k v = (if k' = k then (k, v) # m else (k', v') # mapSet m k v)"

definition mapGet :: "('k \<times> 'v) list \<Rightarrow> 'k \<Rightarrow> 'v option" where
  "mapGet m k = map_of m k"

text \<open>The body of the inner \<^verbatim>\<open>for\<close> loop (lines 144-146).\<close>

definition countCommit :: "(string \<times> nat) list \<Rightarrow> Commit \<Rightarrow> (string \<times> nat) list" where
  "countCommit authorCounts commit =
     (let login = authorKey commit
      in mapSet authorCounts login
           ((case mapGet authorCounts login of
               None \<Rightarrow> 0
             | Some n \<Rightarrow> if n = 0 then 0 else n) + 1))"

function authorCountsLoop ::
  "RemoteAPI \<Rightarrow> OctokitInstance \<Rightarrow> string \<Rightarrow> string \<Rightarrow> string \<Rightarrow> (string \<times> nat) list \<Rightarrow> nat
     \<Rightarrow> remote_error + (string \<times> nat) list" where
  "authorCountsLoop w octokit owner repo since authorCounts page =
     (if page \<le> MAX_PAGES then
        (case listCommits w octokit owner repo since page of
           Inl err \<Rightarrow> Inl err
         | Inr data \<Rightarrow>
             if length data = 0 then Inr authorCounts
             else if length data < 100 then Inr (foldl countCommit authorCounts data)
             else authorCountsLoop w octokit owner repo since
                    (foldl countCommit authorCounts data) (page + 1))
      else Inr authorCounts)"
  by pat_completeness auto
termination
  by (relation "measure (\<lambda>(w, octokit, owner, repo, since, authorCounts, page). MAX_PAGES + 1 - page)")
     (auto simp: MAX_PAGES_def)

declare authorCountsLoop.simps [simp del]

text \<open>The selection loop (lines 155-162) over the entries in insertion order.\<close>

definition selectTop :: "(string \<times> nat) list \<Rightarrow> string" where
  "selectTop authorCounts =
     fst (foldl (\<lambda>(topAuthor, topCount) (author, count).
                   if count > topCount then (author, count) else (topAuthor, topCount))
            (''N/A'', 0) authorCounts)"

definition getTopContributor ::
  "RemoteAPI \<Rightarrow> OctokitInstance \<Rightarrow> string \<Rightarrow> string \<Rightarrow> string \<Rightarrow> remote_error + string" where
  "getTopContributor w octokit owner repo since =
     (case authorCountsLoop w octokit owner repo since [] 1 of
        Inl err \<Rightarrow> Inl err
      | Inr authorCounts \<Rightarrow>
          Inr (if length authorCounts = 0 then ''N/A'' else selectTop authorCounts))"

section \<open>CompanyAnalysisPipeline: analyzeCompany (lines 167-259)\<close>

text \<open>
  The object literal with the \<^verbatim>\<open>"N/A"\<close> fields, written out four times in the source
  (three times here, once in the route), with or without \<^verbatim>\<open>error\<close>.
\<close>

definition notApplicable :: "string \<Rightarrow> jsString \<Rightarrow> string option \<Rightarrow> CompanyResult" where
  "notApplicable cname url err =
     \<lparr>company_name = cname, github_org_url = url,
      most_active_repo = ''N/A'', most_active_repo_url = ''N/A'',
      commit_count = 0, top_contributor = ''N/A'', error = err\<rparr>"

text \<open>The callback of \<^verbatim>\<open>repos.map\<close> (lines 206-222): a failed count is caught and replaced by 0.\<close>

definition countRepo ::
  "RemoteAPI \<Rightarrow> OctokitInstance \<Rightarrow> string \<Rightarrow> string \<Rightarrow> RepoListItem \<Rightarrow> RepoCommitData" where
  "countRepo w octokit orgName since repo =
     (case getRepoCommitCount w octokit orgName (name repo) since of
        Inr n \<Rightarrow> \<lparr>repoName = name repo, repoUrl = html_url repo, commitCount = n\<rparr>
      | Inl err \<Rightarrow> \<lparr>repoName = name repo, repoUrl = html_url repo, commitCount = 0\<rparr>)"

text \<open>
  \<^verbatim>\<open>Array.prototype.reduce\<close> without an initial value: the first element starts the
  accumulator; on an empty array it throws.
\<close>

fun reduce :: "('a \<Rightarrow> 'a \<Rightarrow> 'a) \<Rightarrow> 'a list \<Rightarrow> thrown + 'a" where
  "reduce f [] = Inl ReduceOfEmptyArray"
| "reduce f (x # xs) = Inr (foldl f x xs)"

definition moreActive :: "RepoCommitData \<Rightarrow> RepoCommitData \<Rightarrow> RepoCommitData" where
  "moreActive best current = (if commitCount current > commitCount best then current else best)"

text \<open>
  The result of the awaited call is the \<^verbatim>\<open>CompanyResult\<close> or the thrown value; the
  first component lists the messages handed to \<^verbatim>\<open>onProgress\<close> on the way, in order.
\<close>

definition analyzeCompany ::
  "urlParser \<Rightarrow> RemoteAPI \<Rightarrow> OctokitInstance \<Rightarrow> CompanyInput \<Rightarrow> string
     \<Rightarrow> string list \<times> (thrown + CompanyResult)" where
  "analyzeCompany parse w octokit company0 since =
     (case extractOrgName parse (github_org_url company0) of
        None \<Rightarrow>
          ([], Inr (notApplicable (company_name company0) (github_org_url company0)
                      (Some ''Invalid GitHub URL'')))
      | Some orgName \<Rightarrow>
          if orgName = [] then
            ([], Inr (notApplicable (company_name company0) (github_org_url company0)
                        (Some ''Invalid GitHub URL'')))
          else
            (let m1 = ''Fetching repos for '' @ orgName @ ''...''
             in case listOrgRepos w octokit orgName of
                  Inl err \<Rightarrow> ([m1], Inl (Remote err))
                | Inr repos \<Rightarrow>
                    if length repos = 0 then
                      ([m1], Inr (notApplicable (company_name company0) (github_org_url company0)
                                    (Some ''No repos found'')))
                    else
                      (let m2 = ''Found '' @ showNat (length repos) @ '' repos for '' @ orgName
                                  @ '', counting commits...'';
                           repoResults = map (countRepo w octokit orgName since) repos
                       in case reduce moreActive repoResults of
                            Inl err \<Rightarrow> ([m1, m2], Inl err)
                          | Inr mostActive \<Rightarrow>
                              if commitCount mostActive = 0 then
                                ([m1, m2],
                                 Inr (notApplicable (company_name company0)
                                        (github_org_url company0) None))
                              else
                                (let m3 = ''Most active: '' @ repoName mostActive @ '' (''
                                            @ showNat (commitCount mostActive)
                                            @ '' commits). Finding top contributor...''
                                 in case getTopContributor w octokit orgName
                                           (repoName mostActive) since of
                                      Inl err \<Rightarrow> ([m1, m2, m3], Inl (Remote err))
                                    | Inr topContributor \<Rightarrow>
                                        ([m1, m2, m3],
                                         Inr \<lparr>company_name = company_name company0,
                                              github_org_url = github_org_url company0,
                                              most_active_repo = repoName mostActive,
                                              most_active_repo_url = repoUrl mostActive,
                                              commit_count = commitCount mostActive,
                                              top_contributor = topContributor,
                                              error = None\<rparr>)))))"

section \<open>BatchScheduler and ProgressStream: processCompanies (src/app/api/analyze/route.ts)\<close>

text \<open>
  \<^verbatim>\<open>sendEvent\<close> writes one frame per call and swallows a failed write, so the stream is
  the list of the events handed to it, in call order. An awaited write is taken to
  return (the consumer reads, or it has disconnected and the write fails); a consumer
  that stays connected without reading is outside the model.

  Inside a window the five pipelines run concurrently. The first \<^verbatim>\<open>sendEvent\<close> of each
  task is issued synchronously by \<^verbatim>\<open>batch.map\<close>, in input order. After that each task
  has its remaining steps: the progress events of its pipeline, in order, and then
  settling. Which task takes its next step is decided by the runtime and the network:
  a schedule, a list of task indices. When the schedule is used up, the tasks still
  running finish one after the other (\<^verbatim>\<open>Promise.allSettled\<close> waits for all of them).
\<close>

datatype 'e taskState = Running "'e list" | Settled

fun runSchedule ::
  "nat list \<Rightarrow> 'e taskState list \<Rightarrow> 'e list \<Rightarrow> nat list \<Rightarrow> 'e taskState list \<times> 'e list \<times> nat list" where
  "runSchedule [] ts out settled = (ts, out, settled)"
| "runSchedule (i # sched) ts out settled =
     (if i < length ts then
        (case ts ! i of
           Running (e # es) \<Rightarrow> runSchedule sched (ts[i := Running es]) (out @ [e]) settled
         | Running [] \<Rightarrow> runSchedule sched (ts[i := Settled]) out (settled @ [i])
         | Settled \<Rightarrow> runSchedule sched ts out settled)
      else runSchedule sched ts out settled)"

fun finishAll :: "nat \<Rightarrow> 'e taskState list \<Rightarrow> 'e list \<Rightarrow> nat list \<Rightarrow> 'e list \<times> nat list" where
  "finishAll i [] out settled = (out, settled)"
| "finishAll i (Running es # ts) out settled = finishAll (i + 1) ts (out @ es) (settled @ [i])"
| "finishAll i (Settled # ts) out settled = finishAll (i + 1) ts out settled"

text \<open>
  The events the tasks of a window emit after their first one, and the order in which
  the tasks settle, under a schedule.
\<close>

definition runTasks :: "nat list \<Rightarrow> 'e list list \<Rightarrow> 'e list \<times> nat list" where
  "runTasks sched steps =
     (case runSchedule sched (map Running steps) [] [] of
        (ts, out, settled) \<Rightarrow> finishAll 0 ts out settled)"

definition BATCH_SIZE :: nat where
  "BATCH_SIZE = 5"

text \<open>\<^verbatim>\<open>xs.slice(i, j)\<close> for \<open>0 \<le> i \<le> j\<close>.\<close>

definition slice :: "'a list \<Rightarrow> nat \<Rightarrow> nat \<Rightarrow> 'a list" where
  "slice xs i j = take (j - i) (drop i xs)"

text \<open>The two progress events of lines 58-64 and 70-77.\<close>

definition analyzingEvent :: "nat \<Rightarrow> nat \<Rightarrow> CompanyInput \<Rightarrow> ProgressEvent" where
  "analyzingEvent completed0 total0 c =
     \<lparr>type = Progress, company = Some (company_name c),
      message = ''Analyzing '' @ company_name c @ ''...'',
      result = None, completed = Some completed0, total = Some total0\<rparr>"

definition pipelineEvent :: "nat \<Rightarrow> nat \<Rightarrow> CompanyInput \<Rightarrow> string \<Rightarrow> ProgressEvent" where
  "pipelineEvent completed0 total0 c msg =
     \<lparr>type = Progress, company = Some (company_name c),
      message = ''['' @ company_name c @ ''] '' @ msg,
      result = None, completed = Some completed0, total = Some total0\<rparr>"

text \<open>
  The event for one entry of \<^verbatim>\<open>results\<close> (lines 87-121), after \<^verbatim>\<open>completed++\<close>.
  \<open>idx\<close> is \<^verbatim>\<open>results.indexOf(result)\<close>, the position of the entry.
\<close>

definition isTruthy :: "string option \<Rightarrow> bool" where
  "isTruthy v = (case v of None \<Rightarrow> False | Some s \<Rightarrow> s \<noteq> [])"

definition resultMessage :: "CompanyResult \<Rightarrow> string" where
  "resultMessage v =
     (if isTruthy (error v) then company_name v @ '': '' @ (case error v of Some e \<Rightarrow> e | None \<Rightarrow> [])
      else company_name v @ '': '' @ most_active_repo v @ '' ('' @ showNat (commit_count v)
             @ '' commits)'')"

definition reasonMessage :: "thrown \<Rightarrow> string" where
  "reasonMessage reason =
     (case reason of
        Remote err \<Rightarrow> if instanceofError err then errorMessage err else ''Unknown error''
      | ReduceOfEmptyArray \<Rightarrow> ''Reduce of empty array with no initial value'')"

definition settledEvent ::
  "CompanyInput list \<Rightarrow> nat \<Rightarrow> nat \<Rightarrow> nat \<Rightarrow> thrown + CompanyResult \<Rightarrow> ProgressEvent" where
  "settledEvent batch idx completed1 total0 res =
     (case res of
        Inr v \<Rightarrow>
          \<lparr>type = (if isTruthy (error v) then Error else Result),
           company = Some (company_name v),
           message = resultMessage v,
           result = Some v, completed = Some completed1, total = Some total0\<rparr>
      | Inl reason \<Rightarrow>
          (let companyName =
                 (if idx < length batch then company_name (batch ! idx) else ''Unknown'');
               orgUrl = (if idx < length batch then github_org_url (batch ! idx) else [])
           in \<lparr>type = Error, company = Some companyName,
               message = companyName @ '': '' @ reasonMessage reason,
               result = Some (notApplicable companyName orgUrl (Some (reasonMessage reason))),
               completed = Some completed1, total = Some total0\<rparr>))"

text \<open>The \<^verbatim>\<open>for (const result of results)\<close> loop: entries in array order.\<close>

fun emitSettled ::
  "CompanyInput list \<Rightarrow> nat \<Rightarrow> nat \<Rightarrow> nat \<Rightarrow> (thrown + CompanyResult) list
     \<Rightarrow> ProgressEvent list \<times> nat" where
  "emitSettled batch idx completed0 total0 [] = ([], completed0)"
| "emitSettled batch idx completed0 total0 (res # results) =
     (case emitSettled batch (idx + 1) (completed0 + 1) total0 results of
        (evs, completed2) \<Rightarrow>
          (settledEvent batch idx (completed0 + 1) total0 res # evs, completed2))"

text \<open>
  One window (lines 54-122): the events, the counter afterwards and the order in which
  the entries settled. \<^verbatim>\<open>Promise.allSettled\<close> returns its array in the order of the
  promises it was given.
\<close>

definition processBatch ::
  "nat list \<Rightarrow> urlParser \<Rightarrow> RemoteAPI \<Rightarrow> OctokitInstance \<Rightarrow> string \<Rightarrow> CompanyInput list
     \<Rightarrow> nat \<Rightarrow> nat \<Rightarrow> ProgressEvent list \<times> nat \<times> nat list" where
  "processBatch sched parse w octokit since batch completed0 total0 =
     (let runs = map (\<lambda>c. analyzeCompany parse w octokit c since) batch;
          started = map (analyzingEvent completed0 total0) batch;
          steps = map (\<lambda>(c, r). map (pipelineEvent completed0 total0 c) (fst r)) (zip batch runs);
          results = map snd runs
      in (case runTasks sched steps of
            (during, settleOrder) \<Rightarrow>
              (case emitSettled batch 0 completed0 total0 results of
                 (terminal, completed1) \<Rightarrow>
                   (started @ during @ terminal, completed1, settleOrder))))"

function processFrom ::
  "(nat \<Rightarrow> nat list) \<Rightarrow> urlParser \<Rightarrow> RemoteAPI \<Rightarrow> OctokitInstance \<Rightarrow> string
     \<Rightarrow> CompanyInput list \<Rightarrow> nat \<Rightarrow> nat \<Rightarrow> ProgressEvent list" where
  "processFrom sched parse w octokit since companies0 i completed0 =
     (if i < length companies0 then
        (case processBatch (sched i) parse w octokit since
                (slice companies0 i (i + BATCH_SIZE)) completed0 (length companies0) of
           (evs, completed1, settleOrder) \<Rightarrow>
             evs @ processFrom sched parse w octokit since companies0 (i + BATCH_SIZE) completed1)
      else [])"
  by pat_completeness auto
termination
  by (relation "measure (\<lambda>(sched, parse, w, octokit, since, companies0, i, completed0).
                  length companies0 - i)")
     (auto simp: BATCH_SIZE_def)

declare processFrom.simps [simp del]

definition doneEvent :: "nat \<Rightarrow> ProgressEvent" where
  "doneEvent total0 =
     \<lparr>type = Done, company = None,
      message = ''Finished analyzing '' @ showNat total0 @ '' companies'',
      result = None, completed = Some total0, total = Some total0\<rparr>"

definition processCompanies ::
  "(nat \<Rightarrow> nat list) \<Rightarrow> urlParser \<Rightarrow> RemoteAPI \<Rightarrow> string \<Rightarrow> string \<Rightarrow> CompanyInput list
     \<Rightarrow> ProgressEvent list" where
  "processCompanies sched parse w token0 since companies0 =
     (let octokit = createOctokit token0
      in processFrom sched parse w octokit since companies0 0 0
           @ [doneEvent (length companies0)])"

text \<open>
  The handler: the request body after \<^verbatim>\<open>request.json()\<close> (\<open>None\<close> when that throws),
  the two validations, then the stream.
\<close>

record RequestBody =
  companies :: "CompanyInput list option"
  token :: "string option"

datatype Response = BadRequest string | EventStream "ProgressEvent list"

definition POST ::
  "(nat \<Rightarrow> nat list) \<Rightarrow> urlParser \<Rightarrow> RemoteAPI \<Rightarrow> string \<Rightarrow> RequestBody option \<Rightarrow> Response" where
  "POST sched parse w since body =
     (case body of
        None \<Rightarrow> BadRequest ''Invalid JSON''
      | Some b \<Rightarrow>
          (case token b of
             None \<Rightarrow> BadRequest ''GitHub token is required''
           | Some t \<Rightarrow>
               if t = [] then BadRequest ''GitHub token is required''
               else (case companies b of
                       None \<Rightarrow> BadRequest ''Companies array is required''
                     | Some cs \<Rightarrow>
                         if length cs = 0 then BadRequest ''Companies array is required''
                         else EventStream (processCompanies sched parse w t since cs))))"

section \<open>The resolver as the specification words it\<close>

text \<open>
  The specification's algorithm for \<open>extract_org\<close>, for comparison with
  \<^verbatim>\<open>extractOrgName\<close>: trim white space and trailing slashes; if the string lacks a
  scheme, assume \<^verbatim>\<open>https://\<close>; parse; null if the host does not contain the hosting
  domain or parsing fails; otherwise the first non-empty path segment. A string has a
  scheme when it starts with a letter followed by letters, digits, \<open>+\<close>, \<open>-\<close> or \<open>.\<close>
  up to a colon.
\<close>

definition isAlpha :: "codeUnit \<Rightarrow> bool" where
  "isAlpha c =
     ((of_char CHR ''a'' \<le> c \<and> c \<le> of_char CHR ''z'') \<or>
      (of_char CHR ''A'' \<le> c \<and> c \<le> of_char CHR ''Z''))"

definition isSchemeChar :: "codeUnit \<Rightarrow> bool" where
  "isSchemeChar c =
     (isAlpha c \<or> (of_char CHR ''0'' \<le> c \<and> c \<le> of_char CHR ''9'') \<or>
      c = of_char CHR ''+'' \<or> c = of_char CHR ''-'' \<or> c = of_char CHR ''.'')"

definition hasScheme :: "jsString \<Rightarrow> bool" where
  "hasScheme s =
     (case s of
        [] \<Rightarrow> False
      | c # cs \<Rightarrow>
          isAlpha c \<and>
          (case dropWhile isSchemeChar cs of [] \<Rightarrow> False | d # ds \<Rightarrow> d = of_char CHR '':''))"

definition firstPathSegment :: "string \<Rightarrow> string option" where
  "firstPathSegment path =
     (let seg = takeWhile (\<lambda>ch. ch \<noteq> CHR ''/'') (dropWhile (\<lambda>ch. ch = CHR ''/'') path)
      in if seg = [] then None else Some seg)"

definition extract_org_spec :: "urlParser \<Rightarrow> jsString \<Rightarrow> string option" where
  "extract_org_spec parse url =
     (let cleaned = stripTrailingSlashes (trim url);
          candidate = (if hasScheme cleaned then cleaned else lit ''https://'' @ cleaned)
      in case parse candidate of
           None \<Rightarrow> None
         | Some urlObj \<Rightarrow>
             if includesStr (hostname urlObj) ''github.com''
             then firstPathSegment (pathname urlObj) else None)"

section \<open>The count of a repository as the specification words it\<close>

text \<open>
  The count the specification gives a repository in an analysis: the count of its
  commit listing, and 0 when the count call fails.
\<close>

definition countOrZero ::
  "RemoteAPI \<Rightarrow> OctokitInstance \<Rightarrow> string \<Rightarrow> string \<Rightarrow> RepoListItem \<Rightarrow> nat" where
  "countOrZero w octokit orgName since repo =
     (case getRepoCommitCount w octokit orgName (name repo) since of
        Inl err \<Rightarrow> 0
      | Inr n \<Rightarrow> n)"

section \<open>Observations on an event stream\<close>

text \<open>
  A terminal event is a \<^verbatim>\<open>result\<close> or an \<^verbatim>\<open>error\<close> event. Every event the route emits
  sets \<^verbatim>\<open>completed\<close>; \<open>completedOf\<close> reads it.
\<close>

definition isTerminal :: "ProgressEvent \<Rightarrow> bool" where
  "isTerminal e = (type e = Result \<or> type e = Error)"

definition completedOf :: "ProgressEvent \<Rightarrow> nat" where
  "completedOf e = (case completed e of Some k \<Rightarrow> k | None \<Rightarrow> 0)"

section \<open>Two runs of a request compared\<close>




section \<open>Sample inputs\<close>

text \<open>
  A small remote side and the values of the \<^verbatim>\<open>URL\<close> constructor at a few strings, on
  which the theorems below are instantiated. The organisation \<open>acme\<close> has the
  repositories \<open>x\<close> (3 commits in the window) and \<open>y\<close> (10 commits, five by each of two
  authors); \<open>flaky\<close> has a repository whose commit listing fails; the repositories
  of \<open>quiet\<close> have no commit in the window; \<open>big\<close> answers every page with 100
  commits.
\<close>

definition sampleSince :: string where
  "sampleSince = ''2026-10-04T00:00:00.000Z''"

definition alice :: Commit where
  "alice = \<lparr>author_login = Some ''alice'', commit_author_name = Some ''Alice A.''\<rparr>"

definition bob :: Commit where
  "bob = \<lparr>author_login = None, commit_author_name = Some ''bob''\<rparr>"

definition sampleRepo :: "string \<Rightarrow> string \<Rightarrow> RepoListItem" where
  "sampleRepo org repo =
     \<lparr>name = repo, html_url = ''https://github.com/'' @ org @ ''/'' @ repo, fork = False\<rparr>"

definition samplePages :: "string \<Rightarrow> nat \<Rightarrow> Commit list" where
  "samplePages repo page =
     (if repo = ''big'' then replicate 100 alice
      else if page \<noteq> 1 then []
      else if repo = ''x'' then [bob, bob, alice]
      else if repo = ''y'' then [alice, bob, alice, bob, alice, bob, alice, bob, alice, bob]
      else [])"

definition sampleRemote :: RemoteAPI where
  "sampleRemote =
     \<lparr>listForOrg = (\<lambda>octokit org.
        if org = ''acme'' then Inr [sampleRepo org ''x'', sampleRepo org ''y'']
        else if org = ''flaky'' then Inr [sampleRepo org ''broken'', sampleRepo org ''x'']
        else if org = ''quiet'' then Inr [sampleRepo org ''idle'', sampleRepo org ''asleep'']
        else Inl (RemoteError True (Some 404) ''Not Found'')),
      listForUser = (\<lambda>octokit user. Inr []),
      listCommits = (\<lambda>octokit owner repo since page.
        if repo = ''broken'' then Inl (RemoteError True (Some 500) ''Server Error'')
        else Inr (samplePages repo page))\<rparr>"

definition sampleParse :: urlParser where
  "sampleParse s =
     (if s = lit ''https://github.com/acme'' then
        Some \<lparr>hostname = ''github.com'', pathname = ''/acme''\<rparr>
      else if s = lit ''https://github.com/flaky'' then
        Some \<lparr>hostname = ''github.com'', pathname = ''/flaky''\<rparr>
      else if s = lit ''https://github.com/quiet'' then
        Some \<lparr>hostname = ''github.com'', pathname = ''/quiet''\<rparr>
      else if s = lit ''https://http.github.com/acme'' then
        Some \<lparr>hostname = ''http.github.com'', pathname = ''/acme''\<rparr>
      else if s = lit ''https://example.org/acme'' then
        Some \<lparr>hostname = ''example.org'', pathname = ''/acme''\<rparr>
      else None)"

definition acme :: CompanyInput where
  "acme = \<lparr>company_name = ''Acme'', github_org_url = lit ''https://github.com/acme''\<rparr>"

definition flaky :: CompanyInput where
  "flaky = \<lparr>company_name = ''Flaky'', github_org_url = lit ''github.com/flaky/''\<rparr>"

definition quiet :: CompanyInput where
  "quiet = \<lparr>company_name = ''Quiet'', github_org_url = lit ''  https://github.com/quiet  ''\<rparr>"

definition nowhere :: CompanyInput where
  "nowhere = \<lparr>company_name = ''Nowhere'', github_org_url = lit ''not a url''\<rparr>"




section \<open>CommitCounter: the paging loop\<close>

lemma commitCountLoop_done:
  "\<not> count < MAX_COMMITS \<Longrightarrow> commitCountLoop w octokit owner repo since count page reqs = Inr (count, reqs)"
  by (simp add: commitCountLoop.simps)

lemma commitCountLoop_pages:
  shows "\<forall>p. listCommits w octokit owner repo since p = Inr (pages p) \<Longrightarrow> count < MAX_COMMITS \<Longrightarrow>
         \<exists>k. page \<le> k \<and>
             commitCountLoop w octokit owner repo since count page reqs =
               Inr (count + (\<Sum>p = page..k. length (pages p)), reqs @ [page..<Suc k]) \<and>
             (\<forall>j. page \<le> j \<and> j < k \<longrightarrow>
                  100 \<le> length (pages j) \<and> count + (\<Sum>p = page..j. length (pages p)) < MAX_COMMITS) \<and>
             (length (pages k) < 100 \<or> MAX_COMMITS \<le> count + (\<Sum>p = page..k. length (pages p)))"
proof (induction w octokit owner repo since count page reqs rule: commitCountLoop.induct)
  case (1 w octokit owner repo since count page reqs)
  note ok = \<open>\<forall>p. listCommits w octokit owner repo since p = Inr (pages p)\<close>
  note lt = \<open>count < MAX_COMMITS\<close>
  have data: "listCommits w octokit owner repo since page = Inr (pages page)"
    using ok by simp
  show ?case
  proof (cases "length (pages page) < 100")
    case True
    then have "commitCountLoop w octokit owner repo since count page reqs =
                 Inr (count + length (pages page), reqs @ [page])"
      using lt data by (simp add: commitCountLoop.simps)
    with True show ?thesis
      by (intro exI [of _ page]) simp
  next
    case False
    then have full: "100 \<le> length (pages page)" "length (pages page) \<noteq> 0" by auto
    have unfold: "commitCountLoop w octokit owner repo since count page reqs =
                    commitCountLoop w octokit owner repo since
                      (count + length (pages page)) (page + 1) (reqs @ [page])"
      using lt data False full by (subst commitCountLoop.simps) simp
    show ?thesis
    proof (cases "count + length (pages page) < MAX_COMMITS")
      case False
      then have "commitCountLoop w octokit owner repo since count page reqs =
                   Inr (count + length (pages page), reqs @ [page])"
        using unfold by (simp add: commitCountLoop_done)
      with False show ?thesis
        by (intro exI [of _ page]) simp
    next
      case True
      from "1.IH" [OF lt data _ _ ok True] full False
      obtain k where k: "page + 1 \<le> k"
        and res: "commitCountLoop w octokit owner repo since
                    (count + length (pages page)) (page + 1) (reqs @ [page]) =
                  Inr (count + length (pages page) + (\<Sum>p = page + 1..k. length (pages p)),
                       (reqs @ [page]) @ [page + 1..<Suc k])"
        and before: "\<forall>j. page + 1 \<le> j \<and> j < k \<longrightarrow>
                       100 \<le> length (pages j) \<and>
                       count + length (pages page) + (\<Sum>p = page + 1..j. length (pages p)) < MAX_COMMITS"
        and stop: "length (pages k) < 100 \<or>
                   MAX_COMMITS \<le> count + length (pages page) + (\<Sum>p = page + 1..k. length (pages p))"
        by auto
      have split_sum: "\<And>j. page \<le> j \<Longrightarrow>
          (\<Sum>p = page..j. length (pages p)) = length (pages page) + (\<Sum>p = page + 1..j. length (pages p))"
        by (simp add: sum.atLeast_Suc_atMost)
      have upt: "[page..<Suc k] = page # [page + 1..<Suc k]"
        using k by (simp add: upt_conv_Cons)
      have "\<forall>j. page \<le> j \<and> j < k \<longrightarrow>
              100 \<le> length (pages j) \<and> count + (\<Sum>p = page..j. length (pages p)) < MAX_COMMITS"
      proof (intro allI impI)
        fix j assume j: "page \<le> j \<and> j < k"
        show "100 \<le> length (pages j) \<and> count + (\<Sum>p = page..j. length (pages p)) < MAX_COMMITS"
        proof (cases "j = page")
          case True
          with full \<open>count + length (pages page) < MAX_COMMITS\<close> show ?thesis by simp
        next
          case False
          with j have "page + 1 \<le> j \<and> j < k" by simp
          with before have "100 \<le> length (pages j) \<and>
              count + length (pages page) + (\<Sum>p = page + 1..j. length (pages p)) < MAX_COMMITS"
            by blast
          with split_sum [of j] j show ?thesis by (simp add: add.assoc)
        qed
      qed
      moreover have "page \<le> k" using k by simp
      ultimately show ?thesis
        using res stop unfold split_sum [of k] upt k
        by (intro exI [of _ k]) (simp add: add.assoc)
    qed
  qed
qed


lemma full_pages_sum:
  assumes "\<forall>j. 1 \<le> j \<and> j \<le> m \<longrightarrow> (100::nat) \<le> f j"
  shows "100 * m \<le> (\<Sum>p = 1..m. f p)"
  using assms
proof (induction m)
  case 0
  then show ?case by simp
next
  case (Suc m)
  then have "100 * m \<le> (\<Sum>p = 1..m. f p)" and "100 \<le> f (Suc m)" by simp_all
  then show ?case by simp
qed

text \<open>
  Claim C3. The result of \<^verbatim>\<open>getRepoCommitCount\<close> never exceeds \<open>MAX_COMMITS = 500\<close>.
  When the listing answers every page, the pages requested are exactly \<open>1, ..., k\<close> for
  the first \<open>k\<close> at which the page is short (fewer than 100 items) or the running total
  has reached the cap: every earlier page was full and left the total below the cap.
  There are at most five requests, and the result is the minimum of the running total
  and the cap.
\<close>

theorem getRepoCommitCount_paging:
  "MAX_COMMITS = 500 \<and>
   (\<forall>n. getRepoCommitCount w octokit owner repo since = Inr n \<longrightarrow> n \<le> MAX_COMMITS) \<and>
   ((\<forall>p. listCommits w octokit owner repo since p = Inr (pages p)) \<longrightarrow>
    (\<exists>k. 1 \<le> k \<and> k \<le> 5 \<and>
         commitPagesRequested w octokit owner repo since = Inr [1..<Suc k] \<and>
         (\<forall>j. 1 \<le> j \<and> j < k \<longrightarrow>
              100 \<le> length (pages j) \<and> (\<Sum>p = 1..j. length (pages p)) < MAX_COMMITS) \<and>
         (length (pages k) < 100 \<or> MAX_COMMITS \<le> (\<Sum>p = 1..k. length (pages p))) \<and>
         getRepoCommitCount w octokit owner repo since =
           Inr (min (\<Sum>p = 1..k. length (pages p)) MAX_COMMITS)))"
proof (intro conjI allI impI)
  show "MAX_COMMITS = 500" by (simp add: MAX_COMMITS_def)
next
  fix n assume "getRepoCommitCount w octokit owner repo since = Inr n"
  then show "n \<le> MAX_COMMITS"
    by (auto simp: getRepoCommitCount_def split: sum.splits prod.splits)
next
  assume ok: "\<forall>p. listCommits w octokit owner repo since p = Inr (pages p)"
  have "0 < MAX_COMMITS" by (simp add: MAX_COMMITS_def)
  from commitCountLoop_pages [OF ok this, of 1 "[]"]
  obtain k where k: "1 \<le> k"
    and res: "commitCountLoop w octokit owner repo since 0 1 [] =
                Inr ((\<Sum>p = 1..k. length (pages p)), [1..<Suc k])"
    and before: "\<forall>j. 1 \<le> j \<and> j < k \<longrightarrow>
                   100 \<le> length (pages j) \<and> (\<Sum>p = 1..j. length (pages p)) < MAX_COMMITS"
    and stop: "length (pages k) < 100 \<or> MAX_COMMITS \<le> (\<Sum>p = 1..k. length (pages p))"
    by auto
  have "k \<le> 5"
  proof (rule ccontr)
    assume "\<not> k \<le> 5"
    then have five: "\<forall>j. 1 \<le> j \<and> j \<le> 5 \<longrightarrow> 100 \<le> length (pages j)"
      and "(\<Sum>p = 1..5. length (pages p)) < MAX_COMMITS"
      using before by auto
    with full_pages_sum [OF five] show False by (simp add: MAX_COMMITS_def)
  qed
  with k res before stop
  show "\<exists>k. 1 \<le> k \<and> k \<le> 5 \<and>
         commitPagesRequested w octokit owner repo since = Inr [1..<Suc k] \<and>
         (\<forall>j. 1 \<le> j \<and> j < k \<longrightarrow>
              100 \<le> length (pages j) \<and> (\<Sum>p = 1..j. length (pages p)) < MAX_COMMITS) \<and>
         (length (pages k) < 100 \<or> MAX_COMMITS \<le> (\<Sum>p = 1..k. length (pages p))) \<and>
         getRepoCommitCount w octokit owner repo since =
           Inr (min (\<Sum>p = 1..k. length (pages p)) MAX_COMMITS)"
    by (intro exI [of _ k]) (simp add: getRepoCommitCount_def commitPagesRequested_def)
qed

theorem getRepoCommitCount_paging_witness:
  "(\<forall>p. listCommits sampleRemote (createOctokit ''t'') ''acme'' ''big'' sampleSince p = Inr (samplePages ''big'' p)) \<and>
   getRepoCommitCount sampleRemote (createOctokit ''t'') ''acme'' ''big'' sampleSince = Inr 500 \<and>
   commitPagesRequested sampleRemote (createOctokit ''t'') ''acme'' ''big'' sampleSince = Inr [1, 2, 3, 4, 5]"
proof -
  have ok: "\<forall>p. listCommits sampleRemote (createOctokit ''t'') ''acme'' ''big'' sampleSince p = Inr (samplePages ''big'' p)"
    by (simp add: sampleRemote_def)
  have len: "\<And>p. length (samplePages ''big'' p) = 100" by (simp add: samplePages_def)
  from getRepoCommitCount_paging [of sampleRemote "createOctokit ''t''" "''acme''" "''big''" sampleSince "samplePages ''big''"] ok
  obtain k where k: "1 \<le> k" "k \<le> 5"
    and reqs: "commitPagesRequested sampleRemote (createOctokit ''t'') ''acme'' ''big'' sampleSince = Inr [1..<Suc k]"
    and stop: "length (samplePages ''big'' k) < 100 \<or> MAX_COMMITS \<le> (\<Sum>p = 1..k. length (samplePages ''big'' p))"
    and res: "getRepoCommitCount sampleRemote (createOctokit ''t'') ''acme'' ''big'' sampleSince =
           Inr (min (\<Sum>p = 1..k. length (samplePages ''big'' p)) MAX_COMMITS)"
    by blast
  from stop have "500 \<le> 100 * k" by (simp add: len MAX_COMMITS_def)
  with k have "k = 5" by simp
  with reqs res ok show ?thesis by (simp add: len MAX_COMMITS_def upt_rec)
qed

section \<open>ContributorResolver: tally and selection\<close>

lemma map_of_mapSet: "map_of (mapSet m k v) = (map_of m)(k \<mapsto> v)"
  by (induction m k v rule: mapSet.induct) auto

lemma keys_mapSet:
  "map fst (mapSet m k v) = (if k \<in> set (map fst m) then map fst m else map fst m @ [k])"
  by (induction m k v rule: mapSet.induct) auto

lemma distinct_mapSet: "distinct (map fst m) \<Longrightarrow> distinct (map fst (mapSet m k v))"
  by (simp add: keys_mapSet)

lemma map_of_countCommit:
  "map_of (countCommit t c) =
     (map_of t)(authorKey c \<mapsto> (case map_of t (authorKey c) of None \<Rightarrow> 0 | Some n \<Rightarrow> n) + 1)"
  by (simp add: countCommit_def mapGet_def map_of_mapSet Let_def split: option.splits)

lemma keys_countCommit:
  "map fst (countCommit t c) =
     (if authorKey c \<in> set (map fst t) then map fst t else map fst t @ [authorKey c])"
  by (simp add: countCommit_def Let_def keys_mapSet)

lemma tally_counts:
  "distinct (map fst (foldl countCommit [] cs)) \<and>
   set (map fst (foldl countCommit [] cs)) = set (map authorKey cs) \<and>
   (\<forall>a. map_of (foldl countCommit [] cs) a =
          (if a \<in> set (map authorKey cs) then Some (count_list (map authorKey cs) a) else None))"
proof (induction cs rule: rev_induct)
  case Nil
  then show ?case by simp
next
  case (snoc c cs)
  let ?t = "foldl countCommit [] cs"
  from snoc have d: "distinct (map fst ?t)"
    and s: "set (map fst ?t) = set (map authorKey cs)"
    and m: "\<And>a. map_of ?t a =
          (if a \<in> set (map authorKey cs) then Some (count_list (map authorKey cs) a) else None)"
    by simp_all
  have "distinct (map fst (countCommit ?t c))"
    using d by (simp add: keys_countCommit)
  moreover have "set (map fst (countCommit ?t c)) = set (map authorKey (cs @ [c]))"
    using s by (auto simp: keys_countCommit)
  moreover have "\<forall>a. map_of (countCommit ?t c) a =
      (if a \<in> set (map authorKey (cs @ [c]))
       then Some (count_list (map authorKey (cs @ [c])) a) else None)"
    using m by (auto simp: map_of_countCommit)
  ultimately show ?case by simp
qed

lemma keys_first_seen:
  "map fst (foldl countCommit [] cs) = pre @ a # post \<Longrightarrow>
   \<exists>pre' post'. map authorKey cs = pre' @ a # post' \<and> a \<notin> set pre' \<and> set pre' = set pre"
proof (induction cs arbitrary: post rule: rev_induct)
  case Nil
  then show ?case by simp
next
  case (snoc c cs)
  let ?t = "foldl countCommit [] cs"
  have s: "set (map fst ?t) = set (map authorKey cs)"
    using tally_counts [of cs] by blast
  show ?case
  proof (cases "authorKey c \<in> set (map fst ?t)")
    case True
    with snoc.prems have "map fst ?t = pre @ a # post" by (simp add: keys_countCommit)
    from snoc.IH [OF this] obtain pre' post' where
      "map authorKey cs = pre' @ a # post'" "a \<notin> set pre'" "set pre' = set pre" by blast
    then have "map authorKey (cs @ [c]) = pre' @ a # (post' @ [authorKey c])" by simp
    with \<open>a \<notin> set pre'\<close> \<open>set pre' = set pre\<close> show ?thesis by blast
  next
    case False
    with snoc.prems have eq: "map fst ?t @ [authorKey c] = pre @ a # post"
      by (simp add: keys_countCommit)
    show ?thesis
    proof (cases post rule: rev_cases)
      case Nil
      with eq have "map fst ?t = pre" "a = authorKey c" by simp_all
      with s False have "map authorKey (cs @ [c]) = map authorKey cs @ a # []"
        "a \<notin> set (map authorKey cs)" "set (map authorKey cs) = set pre" by auto
      then show ?thesis by blast
    next
      case (snoc post0 x)
      with eq have "map fst ?t = pre @ a # post0" "x = authorKey c" by simp_all
      from snoc.IH [OF this(1)] obtain pre' post' where
        "map authorKey cs = pre' @ a # post'" "a \<notin> set pre'" "set pre' = set pre" by blast
      then have "map authorKey (cs @ [c]) = pre' @ a # (post' @ [authorKey c])" by simp
      with \<open>a \<notin> set pre'\<close> \<open>set pre' = set pre\<close> show ?thesis by blast
    qed
  qed
qed


lemma select_fold:
  "foldl (\<lambda>(topAuthor, topCount) (author, count).
            if count > topCount then (author, count) else (topAuthor, topCount))
     (ta, tc :: nat) t = (ra, rc) \<Longrightarrow>
   ((ra, rc) = (ta, tc) \<and> (\<forall>(b, d) \<in> set t. d \<le> tc)) \<or>
   (\<exists>pre post. t = pre @ (ra, rc) # post \<and> tc < rc \<and>
        (\<forall>(b, d) \<in> set pre. d < rc) \<and> (\<forall>(b, d) \<in> set post. d \<le> rc))"
proof (induction t arbitrary: ta tc)
  case Nil
  then show ?case by simp
next
  case (Cons x t)
  obtain b d where x: "x = (b, d)" by (cases x)
  define acc where "acc = (if d > tc then (b, d) else (ta, tc))"
  from Cons.prems x have run: "foldl (\<lambda>(topAuthor, topCount) (author, count).
            if count > topCount then (author, count) else (topAuthor, topCount))
          (fst acc, snd acc) t = (ra, rc)"
    by (simp add: acc_def)
  from Cons.IH [OF run] show ?case
  proof (elim disjE exE conjE)
    assume same: "(ra, rc) = (fst acc, snd acc)" and le: "\<forall>(b, d) \<in> set t. d \<le> snd acc"
    show ?thesis
    proof (cases "d > tc")
      case True
      with same have r: "ra = b" "rc = d" by (simp_all add: acc_def)
      from le True have "\<forall>(b, d') \<in> set t. d' \<le> d" by (simp add: acc_def)
      with True r x have "x # t = [] @ (ra, rc) # t \<and> tc < rc \<and>
          (\<forall>(b, d) \<in> set []. d < rc) \<and> (\<forall>(b, d) \<in> set t. d \<le> rc)" by simp
      then show ?thesis by (intro disjI2 exI)
    next
      case False
      with same have r: "(ra, rc) = (ta, tc)" by (simp add: acc_def)
      from le False have "\<forall>(b, d') \<in> set t. d' \<le> tc" by (simp add: acc_def)
      with False x have "\<forall>(b, d') \<in> set (x # t). d' \<le> tc" by auto
      with r show ?thesis by (intro disjI1 conjI)
    qed
  next
    fix pre post
    assume t: "t = pre @ (ra, rc) # post" and lt: "snd acc < rc"
      and lower: "\<forall>(b, d) \<in> set pre. d < rc" and upper: "\<forall>(b, d) \<in> set post. d \<le> rc"
    from lt have "tc < rc" "d < rc" by (simp_all add: acc_def split: if_splits)
    with t lower upper x have "x # t = (x # pre) @ (ra, rc) # post \<and> tc < rc \<and>
          (\<forall>(b, d) \<in> set (x # pre). d < rc) \<and> (\<forall>(b, d) \<in> set post. d \<le> rc)" by simp
    then show ?thesis by (intro disjI2 exI)
  qed
qed

lemma selectTop_first_max:
  assumes "t \<noteq> []" and "\<forall>(b, d) \<in> set t. 0 < d"
  shows "\<exists>pre c post. t = pre @ (selectTop t, c) # post \<and>
           (\<forall>(b, d) \<in> set pre. d < c) \<and> (\<forall>(b, d) \<in> set post. d \<le> c)"
proof -
  obtain ra rc where r: "foldl (\<lambda>(topAuthor, topCount) (author, count).
            if count > topCount then (author, count) else (topAuthor, topCount))
          (''N/A'', 0) t = (ra, rc)" by (meson surj_pair)
  then have top: "selectTop t = ra" by (simp add: selectTop_def)
  from assms obtain b d where "(b, d) \<in> set t" "0 < d" by (cases t) auto
  then have "\<not> (\<forall>(b, d) \<in> set t. d \<le> 0)" by force
  with select_fold [OF r] have "\<exists>pre post. t = pre @ (ra, rc) # post \<and> 0 < rc \<and>
        (\<forall>(b, d) \<in> set pre. d < rc) \<and> (\<forall>(b, d) \<in> set post. d \<le> rc)"
    by (elim disjE) (simp, assumption)
  then obtain pre post where
    "t = pre @ (ra, rc) # post" "\<forall>(b, d) \<in> set pre. d < rc" "\<forall>(b, d) \<in> set post. d \<le> rc"
    by (elim exE conjE)
  then have "t = pre @ (selectTop t, rc) # post \<and>
           (\<forall>(b, d) \<in> set pre. d < rc) \<and> (\<forall>(b, d) \<in> set post. d \<le> rc)"
    using top by simp
  then show ?thesis by (intro exI)
qed

lemma authorCountsLoop_past:
  "\<not> page \<le> MAX_PAGES \<Longrightarrow> authorCountsLoop w octokit owner repo since t page = Inr t"
  by (simp add: authorCountsLoop.simps)

lemma authorCountsLoop_pages:
  "\<forall>p. listCommits w octokit owner repo since p = Inr (pages p) \<Longrightarrow> page \<le> MAX_PAGES \<Longrightarrow>
   \<exists>k. page \<le> k \<and> k \<le> MAX_PAGES \<and>
       (\<forall>j. page \<le> j \<and> j < k \<longrightarrow> 100 \<le> length (pages j)) \<and>
       (length (pages k) < 100 \<or> k = MAX_PAGES) \<and>
       authorCountsLoop w octokit owner repo since t page =
         Inr (foldl countCommit t (concat (map pages [page..<Suc k])))"
proof (induction w octokit owner repo since t page rule: authorCountsLoop.induct)
  case (1 w octokit owner repo since t page)
  note ok = \<open>\<forall>p. listCommits w octokit owner repo since p = Inr (pages p)\<close>
  note le = \<open>page \<le> MAX_PAGES\<close>
  have data: "listCommits w octokit owner repo since page = Inr (pages page)"
    using ok by simp
  show ?case
  proof (cases "length (pages page) < 100")
    case True
    then have "authorCountsLoop w octokit owner repo since t page =
                 Inr (foldl countCommit t (pages page))"
      using le data by (subst authorCountsLoop.simps) auto
    with True le show ?thesis
      by (intro exI [of _ page]) simp
  next
    case False
    then have full: "100 \<le> length (pages page)" "length (pages page) \<noteq> 0" by auto
    have unfold: "authorCountsLoop w octokit owner repo since t page =
                    authorCountsLoop w octokit owner repo since
                      (foldl countCommit t (pages page)) (page + 1)"
      using le data False full by (subst authorCountsLoop.simps) simp
    show ?thesis
    proof (cases "page + 1 \<le> MAX_PAGES")
      case False
      with le have "page = MAX_PAGES" by simp
      moreover have "authorCountsLoop w octokit owner repo since t page =
                   Inr (foldl countCommit t (pages page))"
        using unfold False by (simp add: authorCountsLoop_past)
      ultimately show ?thesis
        by (intro exI [of _ page]) simp
    next
      case True
      from "1.IH" [OF le data _ _ ok True] full False
      obtain k where k: "page + 1 \<le> k" "k \<le> MAX_PAGES"
        and before: "\<forall>j. page + 1 \<le> j \<and> j < k \<longrightarrow> 100 \<le> length (pages j)"
        and stop: "length (pages k) < 100 \<or> k = MAX_PAGES"
        and res: "authorCountsLoop w octokit owner repo since
                    (foldl countCommit t (pages page)) (page + 1) =
                  Inr (foldl countCommit (foldl countCommit t (pages page))
                         (concat (map pages [page + 1..<Suc k])))"
        by auto
      have upt: "[page..<Suc k] = page # [page + 1..<Suc k]"
        using k by (simp add: upt_conv_Cons)
      have "\<forall>j. page \<le> j \<and> j < k \<longrightarrow> 100 \<le> length (pages j)"
      proof (intro allI impI)
        fix j assume j: "page \<le> j \<and> j < k"
        show "100 \<le> length (pages j)"
        proof (cases "j = page")
          case True
          with full show ?thesis by simp
        next
          case False
          with j have "page + 1 \<le> j \<and> j < k" by simp
          with before show ?thesis by blast
        qed
      qed
      moreover have "page \<le> k" using k by simp
      ultimately show ?thesis
        using res stop unfold upt k
        by (intro exI [of _ k]) simp
    qed
  qed
qed

text \<open>
  Claim C4. When the listing answers every page, \<^verbatim>\<open>getTopContributor\<close> samples the
  pages \<open>1, ..., k\<close>, where \<open>k\<close> is the first short page or the fifth page. With
  \<open>authors\<close> the author keys of the sampled commits in stream order: if there is no
  commit the result is \<^verbatim>\<open>"N/A"\<close>; otherwise the result is an author whose tally is the
  highest, and every author seen before the first commit of that author has a strictly
  smaller tally, so among the authors with the highest tally the first seen wins.
\<close>

theorem getTopContributor_first_seen:
  assumes ok: "\<forall>p. listCommits w octokit owner repo since p = Inr (pages p)"
  shows "\<exists>k authors. 1 \<le> k \<and> k \<le> 5 \<and>
           (\<forall>j. 1 \<le> j \<and> j < k \<longrightarrow> 100 \<le> length (pages j)) \<and>
           (length (pages k) < 100 \<or> k = 5) \<and>
           authors = map authorKey (concat (map pages [1..<Suc k])) \<and>
           (if authors = [] then getTopContributor w octokit owner repo since = Inr ''N/A''
            else \<exists>pre top post.
                   authors = pre @ top # post \<and> top \<notin> set pre \<and>
                   getTopContributor w octokit owner repo since = Inr top \<and>
                   (\<forall>a. count_list authors a \<le> count_list authors top) \<and>
                   (\<forall>a \<in> set pre. count_list authors a < count_list authors top))"
proof -
  have "1 \<le> MAX_PAGES" by (simp add: MAX_PAGES_def)
  from authorCountsLoop_pages [OF ok this, of "[]"]
  obtain k where k0: "1 \<le> k" "k \<le> MAX_PAGES"
    and before: "\<forall>j. 1 \<le> j \<and> j < k \<longrightarrow> 100 \<le> length (pages j)"
    and stop0: "length (pages k) < 100 \<or> k = MAX_PAGES"
    and res: "authorCountsLoop w octokit owner repo since [] 1 =
                Inr (foldl countCommit [] (concat (map pages [1..<Suc k])))"
    by blast
  from k0 stop0 have k: "1 \<le> k" "k \<le> 5" and stop: "length (pages k) < 100 \<or> k = 5"
    by (simp_all add: MAX_PAGES_def)
  define cs where "cs = concat (map pages [1..<Suc k])"
  define authors where "authors = map authorKey cs"
  define t where "t = foldl countCommit [] cs"
  have dist: "distinct (map fst t)"
    and keys: "set (map fst t) = set authors"
    and counts: "\<And>a. map_of t a = (if a \<in> set authors then Some (count_list authors a) else None)"
    using tally_counts [of cs] by (simp_all add: t_def authors_def)
  have entry: "\<And>b d. (b, d) \<in> set t \<Longrightarrow> d = count_list authors b \<and> b \<in> set authors"
  proof -
    fix b d assume "(b, d) \<in> set t"
    with dist have "map_of t b = Some d" by simp
    with counts [of b] show "d = count_list authors b \<and> b \<in> set authors"
      by (auto split: if_splits)
  qed
  have top: "getTopContributor w octokit owner repo since =
               Inr (if length t = 0 then ''N/A'' else selectTop t)"
    using res by (simp add: getTopContributor_def t_def cs_def)
  have body: "if authors = [] then getTopContributor w octokit owner repo since = Inr ''N/A''
            else \<exists>pre top post.
                   authors = pre @ top # post \<and> top \<notin> set pre \<and>
                   getTopContributor w octokit owner repo since = Inr top \<and>
                   (\<forall>a. count_list authors a \<le> count_list authors top) \<and>
                   (\<forall>a \<in> set pre. count_list authors a < count_list authors top)"
  proof (cases "authors = []")
    case True
    then have "t = []" by (simp add: t_def authors_def)
    with True top show ?thesis by simp
  next
    case False
    with keys have ne: "t \<noteq> []" by auto
    have pos: "\<forall>(b, d) \<in> set t. 0 < d"
    proof (clarify)
      fix b d assume "(b, d) \<in> set t"
      from entry [OF this] have "d = count_list authors b" "b \<in> set authors" by simp_all
      then show "0 < d" using count_list_0_iff [of authors b] by simp
    qed
    define top where "top = selectTop t"
    from selectTop_first_max [OF ne pos, folded top_def]
    obtain tpre c tpost where split: "t = tpre @ (top, c) # tpost"
      and lower: "\<forall>(b, d) \<in> set tpre. d < c" and upper: "\<forall>(b, d) \<in> set tpost. d \<le> c"
      by blast
    from split have sett: "set t = set tpre \<union> {(top, c)} \<union> set tpost" by simp
    then have "(top, c) \<in> set t" by simp
    from entry [OF this] have c: "c = count_list authors top" by simp
    from split have kq: "map fst t = map fst tpre @ top # map fst tpost" by simp
    from keys_first_seen [of cs "map fst tpre" top "map fst tpost",
        folded t_def authors_def, OF kq]
    obtain pre post where auth: "authors = pre @ top # post"
      and fresh: "top \<notin> set pre" and same: "set pre = set (map fst tpre)"
      by blast
    have max: "\<forall>a. count_list authors a \<le> count_list authors top"
    proof
      fix a
      show "count_list authors a \<le> count_list authors top"
      proof (cases "a \<in> set authors")
        case False
        then show ?thesis by simp
      next
        case True
        with keys have "a \<in> fst ` set t" by simp
        then obtain d where ad: "(a, d) \<in> set t" by force
        from entry [OF ad] have d: "d = count_list authors a" by simp
        from ad sett have "(a, d) \<in> set tpre \<or> (a, d) = (top, c) \<or> (a, d) \<in> set tpost"
          by blast
        with lower upper have "d \<le> c" by force
        with c d show ?thesis by simp
      qed
    qed
    have strict: "\<forall>a \<in> set pre. count_list authors a < count_list authors top"
    proof
      fix a assume "a \<in> set pre"
      with same have "a \<in> fst ` set tpre" by simp
      then obtain d where ad: "(a, d) \<in> set tpre" by force
      with sett have "(a, d) \<in> set t" by blast
      from entry [OF this] have "d = count_list authors a" by simp
      moreover from ad lower have "d < c" by force
      ultimately show "count_list authors a < count_list authors top" using c by simp
    qed
    from ne top have "getTopContributor w octokit owner repo since = Inr top"
      by (simp add: top_def)
    with auth fresh max strict have "\<exists>pre top post.
                   authors = pre @ top # post \<and> top \<notin> set pre \<and>
                   getTopContributor w octokit owner repo since = Inr top \<and>
                   (\<forall>a. count_list authors a \<le> count_list authors top) \<and>
                   (\<forall>a \<in> set pre. count_list authors a < count_list authors top)"
      by blast
    with False show ?thesis by simp
  qed
  from k before stop body
  have "1 \<le> k \<and> k \<le> 5 \<and>
           (\<forall>j. 1 \<le> j \<and> j < k \<longrightarrow> 100 \<le> length (pages j)) \<and>
           (length (pages k) < 100 \<or> k = 5) \<and>
           authors = map authorKey (concat (map pages [1..<Suc k])) \<and>
           (if authors = [] then getTopContributor w octokit owner repo since = Inr ''N/A''
            else \<exists>pre top post.
                   authors = pre @ top # post \<and> top \<notin> set pre \<and>
                   getTopContributor w octokit owner repo since = Inr top \<and>
                   (\<forall>a. count_list authors a \<le> count_list authors top) \<and>
                   (\<forall>a \<in> set pre. count_list authors a < count_list authors top))"
    by (simp add: authors_def cs_def)
  then show ?thesis by (intro exI)
qed


theorem getTopContributor_first_seen_witness:
  "(\<forall>p. listCommits sampleRemote (createOctokit ''t'') ''acme'' ''y'' sampleSince p =
          Inr (samplePages ''y'' p)) \<and>
   getTopContributor sampleRemote (createOctokit ''t'') ''acme'' ''y'' sampleSince = Inr ''alice'' \<and>
   (\<exists>k authors. 1 \<le> k \<and> k \<le> 5 \<and>
           (\<forall>j. 1 \<le> j \<and> j < k \<longrightarrow> 100 \<le> length (samplePages ''y'' j)) \<and>
           (length (samplePages ''y'' k) < 100 \<or> k = 5) \<and>
           authors = map authorKey (concat (map (samplePages ''y'') [1..<Suc k])) \<and>
           (if authors = []
            then getTopContributor sampleRemote (createOctokit ''t'') ''acme'' ''y'' sampleSince = Inr ''N/A''
            else \<exists>pre top post.
                   authors = pre @ top # post \<and> top \<notin> set pre \<and>
                   getTopContributor sampleRemote (createOctokit ''t'') ''acme'' ''y'' sampleSince = Inr top \<and>
                   (\<forall>a. count_list authors a \<le> count_list authors top) \<and>
                   (\<forall>a \<in> set pre. count_list authors a < count_list authors top)))"
proof -
  have ok: "\<forall>p. listCommits sampleRemote (createOctokit ''t'') ''acme'' ''y'' sampleSince p =
          Inr (samplePages ''y'' p)"
    by (simp add: sampleRemote_def)
  have top: "getTopContributor sampleRemote (createOctokit ''t'') ''acme'' ''y'' sampleSince = Inr ''alice''"
    by code_simp
  from ok top getTopContributor_first_seen [OF ok] show ?thesis by (intro conjI)
qed

section \<open>CompanyAnalysisPipeline: winner selection and failure isolation\<close>

lemma filter_head: "filter P xs = p # ps \<Longrightarrow> P p"
proof -
  assume "filter P xs = p # ps"
  then have "p \<in> set (filter P xs)" by simp
  then show "P p" by simp
qed

lemma extractOrgName_nonempty: "extractOrgName parse url = Some p \<Longrightarrow> p \<noteq> []"
  by (auto simp: extractOrgName_def split: option.splits if_splits list.splits
      dest: filter_head)

lemma foldl_moreActive_first_max:
  "\<exists>pre post. x # xs = pre @ foldl moreActive x xs # post \<and>
      (\<forall>r \<in> set pre. commitCount r < commitCount (foldl moreActive x xs)) \<and>
      (\<forall>r \<in> set post. commitCount r \<le> commitCount (foldl moreActive x xs))"
proof (induction xs arbitrary: x)
  case Nil
  show ?case by (intro exI [of _ "[]"]) simp
next
  case (Cons y ys)
  define best where "best = foldl moreActive (moreActive x y) ys"
  have fold: "foldl moreActive x (y # ys) = best" by (simp add: best_def)
  from Cons [of "moreActive x y"] obtain pre post where
    dec: "moreActive x y # ys = pre @ best # post"
    and lower: "\<forall>r \<in> set pre. commitCount r < commitCount best"
    and upper: "\<forall>r \<in> set post. commitCount r \<le> commitCount best"
    unfolding best_def by blast
  have acc: "commitCount (moreActive x y) \<le> commitCount best"
  proof -
    have "moreActive x y \<in> set (pre @ best # post)" using dec [symmetric] by simp
    with lower upper show ?thesis by auto
  qed
  have "\<exists>pre post. x # y # ys = pre @ best # post \<and>
      (\<forall>r \<in> set pre. commitCount r < commitCount best) \<and>
      (\<forall>r \<in> set post. commitCount r \<le> commitCount best)"
  proof (cases "commitCount y > commitCount x")
    case True
    then have m: "moreActive x y = y" by (simp add: moreActive_def)
    with acc True have "commitCount x < commitCount best" by simp
    with dec m lower upper have "x # y # ys = (x # pre) @ best # post \<and>
      (\<forall>r \<in> set (x # pre). commitCount r < commitCount best) \<and>
      (\<forall>r \<in> set post. commitCount r \<le> commitCount best)" by simp
    then show ?thesis by (intro exI)
  next
    case False
    then have m: "moreActive x y = x" by (simp add: moreActive_def)
    show ?thesis
    proof (cases pre)
      case Nil
      with dec m have "best = x" "post = ys" by simp_all
      with False upper have "x # y # ys = [] @ best # (y # ys) \<and>
        (\<forall>r \<in> set []. commitCount r < commitCount best) \<and>
        (\<forall>r \<in> set (y # ys). commitCount r \<le> commitCount best)" by simp
      then show ?thesis by (intro exI)
    next
      case (Cons p pre')
      with dec m have px: "p = x" and ys: "ys = pre' @ best # post" by simp_all
      from lower Cons px have "commitCount x < commitCount best" by simp
      with False have "commitCount y < commitCount best" by simp
      with lower Cons px ys upper have "x # y # ys = (x # y # pre') @ best # post \<and>
        (\<forall>r \<in> set (x # y # pre'). commitCount r < commitCount best) \<and>
        (\<forall>r \<in> set post. commitCount r \<le> commitCount best)" by simp
      then show ?thesis by (intro exI)
    qed
  qed
  with fold show ?case by simp
qed

lemma reduce_first_max:
  assumes "rs \<noteq> []"
  shows "\<exists>pre best post. rs = pre @ best # post \<and> reduce moreActive rs = Inr best \<and>
      (\<forall>r \<in> set pre. commitCount r < commitCount best) \<and>
      (\<forall>r \<in> set post. commitCount r \<le> commitCount best)"
proof -
  from assms obtain x xs where rs: "rs = x # xs" by (cases rs) auto
  from foldl_moreActive_first_max [of x xs] obtain pre post where
    "x # xs = pre @ foldl moreActive x xs # post"
    "\<forall>r \<in> set pre. commitCount r < commitCount (foldl moreActive x xs)"
    "\<forall>r \<in> set post. commitCount r \<le> commitCount (foldl moreActive x xs)" by blast
  moreover have "reduce moreActive rs = Inr (foldl moreActive x xs)" by (simp add: rs)
  ultimately have "rs = pre @ foldl moreActive x xs # post \<and>
      reduce moreActive rs = Inr (foldl moreActive x xs) \<and>
      (\<forall>r \<in> set pre. commitCount r < commitCount (foldl moreActive x xs)) \<and>
      (\<forall>r \<in> set post. commitCount r \<le> commitCount (foldl moreActive x xs))"
    using rs by (intro conjI) simp_all
  then show ?thesis by (intro exI)
qed

text \<open>The pipeline after a successful discovery of at least one repository.\<close>

lemma analyzeCompany_reached:
  assumes "extractOrgName parse (github_org_url c) = Some orgName"
    and "listOrgRepos w octokit orgName = Inr repos" and "repos \<noteq> []"
    and "reduce moreActive (map (countRepo w octokit orgName since) repos) = Inr best"
  shows "snd (analyzeCompany parse w octokit c since) =
     (if commitCount best = 0
      then Inr (notApplicable (company_name c) (github_org_url c) None)
      else (case getTopContributor w octokit orgName (repoName best) since of
              Inl err \<Rightarrow> Inl (Remote err)
            | Inr topContributor \<Rightarrow>
                Inr \<lparr>company_name = company_name c, github_org_url = github_org_url c,
                     most_active_repo = repoName best, most_active_repo_url = repoUrl best,
                     commit_count = commitCount best, top_contributor = topContributor,
                     error = None\<rparr>))"
  using assms extractOrgName_nonempty [OF assms(1)]
  by (simp add: analyzeCompany_def Let_def split: sum.splits)


text \<open>
  Claim C2. After repositories were discovered, the list of per-repository counts
  splits around the selected winner \<open>best\<close>: every entry before it has a strictly
  smaller count and every entry after it has a count that is not larger, so the winner
  has the highest count and is the earliest entry with that count. If the winner's
  count is 0 the analysis returns the record with the \<^verbatim>\<open>"N/A"\<close> fields, count 0 and
  no \<^verbatim>\<open>error\<close>; otherwise it goes on to the top contributor of the winner and reports
  the winner's name, URL and count.
\<close>

theorem analyzeCompany_winner:
  assumes "extractOrgName parse (github_org_url c) = Some orgName"
    and "listOrgRepos w octokit orgName = Inr repos" and "repos \<noteq> []"
  shows "\<exists>pre best post.
     map (countRepo w octokit orgName since) repos = pre @ best # post \<and>
     (\<forall>r \<in> set pre. commitCount r < commitCount best) \<and>
     (\<forall>r \<in> set post. commitCount r \<le> commitCount best) \<and>
     (if commitCount best = 0
      then snd (analyzeCompany parse w octokit c since) =
             Inr \<lparr>company_name = company_name c, github_org_url = github_org_url c,
                  most_active_repo = ''N/A'', most_active_repo_url = ''N/A'',
                  commit_count = 0, top_contributor = ''N/A'', error = None\<rparr>
      else snd (analyzeCompany parse w octokit c since) =
             (case getTopContributor w octokit orgName (repoName best) since of
                Inl err \<Rightarrow> Inl (Remote err)
              | Inr topContributor \<Rightarrow>
                  Inr \<lparr>company_name = company_name c, github_org_url = github_org_url c,
                       most_active_repo = repoName best, most_active_repo_url = repoUrl best,
                       commit_count = commitCount best, top_contributor = topContributor,
                       error = None\<rparr>))"
proof -
  from assms(3) have "map (countRepo w octokit orgName since) repos \<noteq> []" by simp
  from reduce_first_max [OF this] obtain pre best post where
    dec: "map (countRepo w octokit orgName since) repos = pre @ best # post"
    and red: "reduce moreActive (map (countRepo w octokit orgName since) repos) = Inr best"
    and lower: "\<forall>r \<in> set pre. commitCount r < commitCount best"
    and upper: "\<forall>r \<in> set post. commitCount r \<le> commitCount best"
    by blast
  from analyzeCompany_reached [OF assms red]
  have "if commitCount best = 0
      then snd (analyzeCompany parse w octokit c since) =
             Inr \<lparr>company_name = company_name c, github_org_url = github_org_url c,
                  most_active_repo = ''N/A'', most_active_repo_url = ''N/A'',
                  commit_count = 0, top_contributor = ''N/A'', error = None\<rparr>
      else snd (analyzeCompany parse w octokit c since) =
             (case getTopContributor w octokit orgName (repoName best) since of
                Inl err \<Rightarrow> Inl (Remote err)
              | Inr topContributor \<Rightarrow>
                  Inr \<lparr>company_name = company_name c, github_org_url = github_org_url c,
                       most_active_repo = repoName best, most_active_repo_url = repoUrl best,
                       commit_count = commitCount best, top_contributor = topContributor,
                       error = None\<rparr>)"
    by (simp add: notApplicable_def)
  with dec lower upper show ?thesis by (intro exI conjI)
qed

theorem analyzeCompany_winner_witness:
  "extractOrgName sampleParse (github_org_url quiet) = Some ''quiet'' \<and>
   listOrgRepos sampleRemote (createOctokit ''t'') ''quiet'' =
     Inr [sampleRepo ''quiet'' ''idle'', sampleRepo ''quiet'' ''asleep''] \<and>
   snd (analyzeCompany sampleParse sampleRemote (createOctokit ''t'') quiet sampleSince) =
     Inr \<lparr>company_name = ''Quiet'', github_org_url = lit ''  https://github.com/quiet  '',
          most_active_repo = ''N/A'', most_active_repo_url = ''N/A'',
          commit_count = 0, top_contributor = ''N/A'', error = None\<rparr> \<and>
   (\<exists>pre best post.
     map (countRepo sampleRemote (createOctokit ''t'') ''quiet'' sampleSince)
       [sampleRepo ''quiet'' ''idle'', sampleRepo ''quiet'' ''asleep''] = pre @ best # post \<and>
     (\<forall>r \<in> set pre. commitCount r < commitCount best) \<and>
     (\<forall>r \<in> set post. commitCount r \<le> commitCount best) \<and>
     (if commitCount best = 0
      then snd (analyzeCompany sampleParse sampleRemote (createOctokit ''t'') quiet sampleSince) =
             Inr \<lparr>company_name = company_name quiet, github_org_url = github_org_url quiet,
                  most_active_repo = ''N/A'', most_active_repo_url = ''N/A'',
                  commit_count = 0, top_contributor = ''N/A'', error = None\<rparr>
      else snd (analyzeCompany sampleParse sampleRemote (createOctokit ''t'') quiet sampleSince) =
             (case getTopContributor sampleRemote (createOctokit ''t'') ''quiet''
                     (repoName best) sampleSince of
                Inl err \<Rightarrow> Inl (Remote err)
              | Inr topContributor \<Rightarrow>
                  Inr \<lparr>company_name = company_name quiet, github_org_url = github_org_url quiet,
                       most_active_repo = repoName best, most_active_repo_url = repoUrl best,
                       commit_count = commitCount best, top_contributor = topContributor,
                       error = None\<rparr>)))"
proof -
  have org: "extractOrgName sampleParse (github_org_url quiet) = Some ''quiet''"
    by code_simp
  have repos: "listOrgRepos sampleRemote (createOctokit ''t'') ''quiet'' =
     Inr [sampleRepo ''quiet'' ''idle'', sampleRepo ''quiet'' ''asleep'']"
    by code_simp
  have ne: "[sampleRepo ''quiet'' ''idle'', sampleRepo ''quiet'' ''asleep''] \<noteq> []" by simp
  have res: "snd (analyzeCompany sampleParse sampleRemote (createOctokit ''t'') quiet sampleSince) =
     Inr \<lparr>company_name = ''Quiet'', github_org_url = lit ''  https://github.com/quiet  '',
          most_active_repo = ''N/A'', most_active_repo_url = ''N/A'',
          commit_count = 0, top_contributor = ''N/A'', error = None\<rparr>"
    by code_simp
  from org repos res analyzeCompany_winner [OF org repos ne, of sampleSince]
  show ?thesis by (intro conjI)
qed

lemma countRepo_fields:
  "repoName (countRepo w octokit orgName since r) = name r \<and>
   repoUrl (countRepo w octokit orgName since r) = html_url r \<and>
   commitCount (countRepo w octokit orgName since r) = countOrZero w octokit orgName since r"
  by (simp add: countRepo_def countOrZero_def split: sum.splits)

text \<open>
  Claim C5. After repositories were discovered, the analysis is the one that counts
  every repository, with 0 for a repository whose count call failed: the list of
  repositories splits around a repository \<open>best\<close> such that every repository before it
  has a strictly smaller count and every repository after it a count that is not
  larger, and what \<^verbatim>\<open>analyzeCompany\<close> returns is decided by \<open>best\<close> alone. With
  count 0 it returns the \<^verbatim>\<open>"N/A"\<close> record without \<^verbatim>\<open>error\<close>; otherwise it returns the
  name, URL and count of \<open>best\<close> without \<^verbatim>\<open>error\<close>, or throws what the top-contributor
  call for \<open>best\<close> throws. So a failed count call takes only its own repository out
  of the running: the others are counted and can win, the analysis is not aborted, and
  a returned result never has an \<^verbatim>\<open>error\<close>.
\<close>

theorem count_failure_isolated:
  assumes "extractOrgName parse (github_org_url c) = Some orgName"
    and "listOrgRepos w octokit orgName = Inr repos" and "repos \<noteq> []"
  shows "\<exists>pre best post.
     repos = pre @ best # post \<and>
     (\<forall>r \<in> set pre. countOrZero w octokit orgName since r <
                      countOrZero w octokit orgName since best) \<and>
     (\<forall>r \<in> set post. countOrZero w octokit orgName since r \<le>
                       countOrZero w octokit orgName since best) \<and>
     snd (analyzeCompany parse w octokit c since) =
       (if countOrZero w octokit orgName since best = 0
        then Inr \<lparr>company_name = company_name c, github_org_url = github_org_url c,
                  most_active_repo = ''N/A'', most_active_repo_url = ''N/A'',
                  commit_count = 0, top_contributor = ''N/A'', error = None\<rparr>
        else (case getTopContributor w octokit orgName (name best) since of
                Inl err \<Rightarrow> Inl (Remote err)
              | Inr topContributor \<Rightarrow>
                  Inr \<lparr>company_name = company_name c, github_org_url = github_org_url c,
                       most_active_repo = name best, most_active_repo_url = html_url best,
                       commit_count = countOrZero w octokit orgName since best,
                       top_contributor = topContributor, error = None\<rparr>))"
proof -
  let ?f = "countRepo w octokit orgName since"
  let ?k = "countOrZero w octokit orgName since"
  from assms(3) have "map ?f repos \<noteq> []" by simp
  from reduce_first_max [OF this] obtain pre' b post' where
    dec: "map ?f repos = pre' @ b # post'"
    and red: "reduce moreActive (map ?f repos) = Inr b"
    and lower: "\<forall>r \<in> set pre'. commitCount r < commitCount b"
    and upper: "\<forall>r \<in> set post'. commitCount r \<le> commitCount b"
    by blast
  from dec have "\<exists>us vs. repos = us @ vs \<and> pre' = map ?f us \<and> b # post' = map ?f vs"
    by (simp only: map_eq_append_conv)
  then obtain pre rest where r1: "repos = pre @ rest" and p1: "pre' = map ?f pre"
    and r2: "b # post' = map ?f rest"
    by (elim exE conjE)
  from r2 have "\<exists>z zs. rest = z # zs \<and> b = ?f z \<and> post' = map ?f zs"
    by (simp only: Cons_eq_map_conv)
  then obtain best post where r3: "rest = best # post" and b: "b = ?f best"
    and p2: "post' = map ?f post"
    by (elim exE conjE)
  have split: "repos = pre @ best # post" unfolding r1 r3 ..
  have cb: "commitCount b = ?k best"
    and nb: "repoName b = name best" and ub: "repoUrl b = html_url best"
    by (simp_all only: b countRepo_fields)
  have lo: "\<forall>r \<in> set pre. ?k r < ?k best"
  proof
    fix r assume "r \<in> set pre"
    then have "?f r \<in> set pre'" by (simp only: p1 set_map imageI)
    with lower have "commitCount (?f r) < commitCount b" by (rule bspec)
    then show "?k r < ?k best" by (simp only: cb countRepo_fields)
  qed
  have up: "\<forall>r \<in> set post. ?k r \<le> ?k best"
  proof
    fix r assume "r \<in> set post"
    then have "?f r \<in> set post'" by (simp only: p2 set_map imageI)
    with upper have "commitCount (?f r) \<le> commitCount b" by (rule bspec)
    then show "?k r \<le> ?k best" by (simp only: cb countRepo_fields)
  qed
  note reached = analyzeCompany_reached [OF assms red]
  have run: "snd (analyzeCompany parse w octokit c since) =
       (if ?k best = 0
        then Inr \<lparr>company_name = company_name c, github_org_url = github_org_url c,
                  most_active_repo = ''N/A'', most_active_repo_url = ''N/A'',
                  commit_count = 0, top_contributor = ''N/A'', error = None\<rparr>
        else (case getTopContributor w octokit orgName (name best) since of
                Inl err \<Rightarrow> Inl (Remote err)
              | Inr topContributor \<Rightarrow>
                  Inr \<lparr>company_name = company_name c, github_org_url = github_org_url c,
                       most_active_repo = name best, most_active_repo_url = html_url best,
                       commit_count = ?k best,
                       top_contributor = topContributor, error = None\<rparr>))"
    using reached unfolding cb nb ub notApplicable_def by simp
  from split lo up run show ?thesis by (intro exI conjI)
qed

theorem count_failure_isolated_witness:
  "extractOrgName sampleParse (github_org_url flaky) = Some ''flaky'' \<and>
   listOrgRepos sampleRemote (createOctokit ''t'') ''flaky'' =
     Inr [sampleRepo ''flaky'' ''broken'', sampleRepo ''flaky'' ''x''] \<and>
   getRepoCommitCount sampleRemote (createOctokit ''t'') ''flaky'' ''broken'' sampleSince =
     Inl (RemoteError True (Some 500) ''Server Error'') \<and>
   getRepoCommitCount sampleRemote (createOctokit ''t'') ''flaky'' ''x'' sampleSince = Inr 3 \<and>
   snd (analyzeCompany sampleParse sampleRemote (createOctokit ''t'') flaky sampleSince) =
     Inr \<lparr>company_name = ''Flaky'', github_org_url = lit ''github.com/flaky/'',
          most_active_repo = ''x'', most_active_repo_url = ''https://github.com/flaky/x'',
          commit_count = 3, top_contributor = ''bob'', error = None\<rparr> \<and>
   (\<exists>pre best post.
     [sampleRepo ''flaky'' ''broken'', sampleRepo ''flaky'' ''x''] = pre @ best # post \<and>
     (\<forall>r \<in> set pre. countOrZero sampleRemote (createOctokit ''t'') ''flaky'' sampleSince r <
                      countOrZero sampleRemote (createOctokit ''t'') ''flaky'' sampleSince best) \<and>
     (\<forall>r \<in> set post. countOrZero sampleRemote (createOctokit ''t'') ''flaky'' sampleSince r \<le>
                       countOrZero sampleRemote (createOctokit ''t'') ''flaky'' sampleSince best) \<and>
     snd (analyzeCompany sampleParse sampleRemote (createOctokit ''t'') flaky sampleSince) =
       (if countOrZero sampleRemote (createOctokit ''t'') ''flaky'' sampleSince best = 0
        then Inr \<lparr>company_name = company_name flaky, github_org_url = github_org_url flaky,
                  most_active_repo = ''N/A'', most_active_repo_url = ''N/A'',
                  commit_count = 0, top_contributor = ''N/A'', error = None\<rparr>
        else (case getTopContributor sampleRemote (createOctokit ''t'') ''flaky'' (name best)
                     sampleSince of
                Inl err \<Rightarrow> Inl (Remote err)
              | Inr topContributor \<Rightarrow>
                  Inr \<lparr>company_name = company_name flaky, github_org_url = github_org_url flaky,
                       most_active_repo = name best, most_active_repo_url = html_url best,
                       commit_count =
                         countOrZero sampleRemote (createOctokit ''t'') ''flaky'' sampleSince best,
                       top_contributor = topContributor, error = None\<rparr>)))"
proof -
  have org: "extractOrgName sampleParse (github_org_url flaky) = Some ''flaky''"
    by code_simp
  have repos: "listOrgRepos sampleRemote (createOctokit ''t'') ''flaky'' =
     Inr [sampleRepo ''flaky'' ''broken'', sampleRepo ''flaky'' ''x'']"
    by code_simp
  have ne: "[sampleRepo ''flaky'' ''broken'', sampleRepo ''flaky'' ''x''] \<noteq> []" by simp
  have fails: "getRepoCommitCount sampleRemote (createOctokit ''t'') ''flaky'' ''broken'' sampleSince =
     Inl (RemoteError True (Some 500) ''Server Error'')"
    by code_simp
  have x: "getRepoCommitCount sampleRemote (createOctokit ''t'') ''flaky'' ''x'' sampleSince = Inr 3"
    by code_simp
  have res: "snd (analyzeCompany sampleParse sampleRemote (createOctokit ''t'') flaky sampleSince) =
     Inr \<lparr>company_name = ''Flaky'', github_org_url = lit ''github.com/flaky/'',
          most_active_repo = ''x'', most_active_repo_url = ''https://github.com/flaky/x'',
          commit_count = 3, top_contributor = ''bob'', error = None\<rparr>"
    by code_simp
  from org repos fails x res count_failure_isolated [OF org repos ne, of sampleSince]
  show ?thesis by (intro conjI)
qed

lemma reduce_nonempty: "xs \<noteq> [] \<Longrightarrow> \<exists>best. reduce f xs = Inr best"
  by (cases xs) simp_all

text \<open>
  Claim C10. \<^verbatim>\<open>reduce\<close> without an initial value faults on the empty array, but
  \<^verbatim>\<open>analyzeCompany\<close> never throws that fault: whenever the reduction is reached (the
  organisation was resolved and the discovery returned a list that passed the
  \<^verbatim>\<open>repos.length === 0\<close> test) it is applied to a non-empty list and returns a winner.
\<close>

theorem reduce_never_empty:
  "reduce moreActive [] = Inl ReduceOfEmptyArray \<and>
   snd (analyzeCompany parse w octokit c since) \<noteq> Inl ReduceOfEmptyArray \<and>
   (\<forall>orgName repos.
      extractOrgName parse (github_org_url c) = Some orgName \<and>
      listOrgRepos w octokit orgName = Inr repos \<and> length repos \<noteq> 0 \<longrightarrow>
      (\<exists>best. reduce moreActive (map (countRepo w octokit orgName since) repos) = Inr best))"
proof (intro conjI allI impI)
  show "reduce moreActive [] = Inl ReduceOfEmptyArray" by simp
next
  fix orgName repos
  assume "extractOrgName parse (github_org_url c) = Some orgName \<and>
      listOrgRepos w octokit orgName = Inr repos \<and> length repos \<noteq> 0"
  then have "map (countRepo w octokit orgName since) repos \<noteq> []" by simp
  then show "\<exists>best. reduce moreActive (map (countRepo w octokit orgName since) repos) = Inr best"
    by (rule reduce_nonempty)
next
  show "snd (analyzeCompany parse w octokit c since) \<noteq> Inl ReduceOfEmptyArray"
  proof (cases "extractOrgName parse (github_org_url c)")
    case None
    then show ?thesis by (simp add: analyzeCompany_def)
  next
    case (Some orgName)
    then have ne: "orgName \<noteq> []" by (rule extractOrgName_nonempty)
    show ?thesis
    proof (cases "listOrgRepos w octokit orgName")
      case (Inl err)
      with Some ne show ?thesis by (simp add: analyzeCompany_def)
    next
      case (Inr repos)
      show ?thesis
      proof (cases "repos = []")
        case True
        with Some ne Inr show ?thesis by (simp add: analyzeCompany_def)
      next
        case False
        then have "map (countRepo w octokit orgName since) repos \<noteq> []" by simp
        from reduce_nonempty [OF this] obtain best where
          "reduce moreActive (map (countRepo w octokit orgName since) repos) = Inr best" ..
        from analyzeCompany_reached [OF Some Inr False this]
        show ?thesis by (simp split: sum.splits)
      qed
    qed
  qed
qed

theorem reduce_never_empty_witness:
  "reduce moreActive [] = Inl ReduceOfEmptyArray \<and>
   extractOrgName sampleParse (github_org_url acme) = Some ''acme'' \<and>
   listOrgRepos sampleRemote (createOctokit ''t'') ''acme'' =
     Inr [sampleRepo ''acme'' ''x'', sampleRepo ''acme'' ''y''] \<and>
   (\<exists>best. reduce moreActive (map (countRepo sampleRemote (createOctokit ''t'') ''acme'' sampleSince)
       [sampleRepo ''acme'' ''x'', sampleRepo ''acme'' ''y'']) = Inr best) \<and>
   snd (analyzeCompany sampleParse sampleRemote (createOctokit ''t'') acme sampleSince) \<noteq>
     Inl ReduceOfEmptyArray"
proof -
  have org: "extractOrgName sampleParse (github_org_url acme) = Some ''acme''"
    by code_simp
  have repos: "listOrgRepos sampleRemote (createOctokit ''t'') ''acme'' =
     Inr [sampleRepo ''acme'' ''x'', sampleRepo ''acme'' ''y'']"
    by code_simp
  note inst = reduce_never_empty [of sampleParse sampleRemote "createOctokit ''t''" acme sampleSince]
  note a = inst [THEN conjunct1]
  note b = inst [THEN conjunct2, THEN conjunct1]
  note c = inst [THEN conjunct2, THEN conjunct2, rule_format]
  have "length [sampleRepo ''acme'' ''x'', sampleRepo ''acme'' ''y''] \<noteq> 0" by simp
  from c [OF conjI [OF org conjI [OF repos this]]]
  have "\<exists>best. reduce moreActive
       (map (countRepo sampleRemote (createOctokit ''t'') ''acme'' sampleSince)
       [sampleRepo ''acme'' ''x'', sampleRepo ''acme'' ''y'']) = Inr best" .
  with a b org repos show ?thesis by (intro conjI)
qed

section \<open>OrgResolver: what extractOrgName computes\<close>

lemma startsWith_iff: "startsWith s p \<longleftrightarrow> (\<exists>rest. s = p @ rest)"
  by (induction s p rule: startsWith.induct) auto

lemma includesStr_iff: "includesStr s p \<longleftrightarrow> (\<exists>a b. s = a @ p @ b)"
proof (induction s)
  case Nil
  then show ?case by (cases p) auto
next
  case (Cons c cs)
  show ?case
  proof
    assume "includesStr (c # cs) p"
    then have "startsWith (c # cs) p \<or> includesStr cs p" by simp
    then show "\<exists>a b. c # cs = a @ p @ b"
    proof
      assume "startsWith (c # cs) p"
      then obtain rest where "c # cs = p @ rest" by (auto simp: startsWith_iff)
      then have "c # cs = [] @ p @ rest" by simp
      then show ?thesis by (intro exI)
    next
      assume "includesStr cs p"
      with Cons obtain a b where "cs = a @ p @ b" by auto
      then have "c # cs = (c # a) @ p @ b" by simp
      then show ?thesis by (intro exI)
    qed
  next
    assume "\<exists>a b. c # cs = a @ p @ b"
    then obtain a b where ab: "c # cs = a @ p @ b" by blast
    show "includesStr (c # cs) p"
    proof (cases a)
      case Nil
      with ab have "startsWith (c # cs) p" by (auto simp: startsWith_iff)
      then show ?thesis by simp
    next
      case (Cons a0 as)
      with ab have "cs = as @ p @ b" by simp
      with Cons.IH have "includesStr cs p" by blast
      then show ?thesis by simp
    qed
  qed
qed

lemma split_head: "\<exists>rest. split sep s = takeWhile (\<lambda>ch. ch \<noteq> sep) s # rest"
  by (induction s) auto

lemma first_segment:
  "(case filter (\<lambda>p. p \<noteq> []) (split CHR ''/'' path) of [] \<Rightarrow> None | p # ps \<Rightarrow> Some p) =
   firstPathSegment path"
proof (induction path)
  case Nil
  then show ?case by (simp add: firstPathSegment_def)
next
  case (Cons c cs)
  show ?case
  proof (cases "c = CHR ''/''")
    case True
    with Cons show ?thesis by (simp add: firstPathSegment_def)
  next
    case False
    obtain rest where "split CHR ''/'' cs = takeWhile (\<lambda>ch. ch \<noteq> CHR ''/'') cs # rest"
      using split_head by blast
    with False show ?thesis by (simp add: firstPathSegment_def)
  qed
qed

lemma drop_end:
  "\<exists>r. s = rev (dropWhile P (rev s)) @ r \<and> (\<forall>ch \<in> set r. P ch) \<and>
       (rev (dropWhile P (rev s)) \<noteq> [] \<longrightarrow> \<not> P (last (rev (dropWhile P (rev s)))))"
proof -
  have "rev (dropWhile P (rev s)) @ rev (takeWhile P (rev s)) =
        rev (takeWhile P (rev s) @ dropWhile P (rev s))"
    by (simp only: rev_append)
  also have "\<dots> = s" by (simp only: takeWhile_dropWhile_id rev_rev_ident)
  finally have s: "s = rev (dropWhile P (rev s)) @ rev (takeWhile P (rev s))" by (rule sym)
  have p: "\<forall>ch \<in> set (rev (takeWhile P (rev s))). P ch"
    by (auto dest: set_takeWhileD)
  have "rev (dropWhile P (rev s)) \<noteq> [] \<longrightarrow> \<not> P (last (rev (dropWhile P (rev s))))"
    by (simp add: last_rev hd_dropWhile)
  with s p show ?thesis by blast
qed

lemma trim_spec:
  "\<exists>l r. url = l @ trim url @ r \<and> (\<forall>ch \<in> set l. isWhiteSpace ch) \<and>
         (\<forall>ch \<in> set r. isWhiteSpace ch) \<and>
         (trim url \<noteq> [] \<longrightarrow> \<not> isWhiteSpace (hd (trim url)) \<and> \<not> isWhiteSpace (last (trim url)))"
proof -
  define m where "m = dropWhile isWhiteSpace url"
  have t: "trim url = rev (dropWhile isWhiteSpace (rev m))" by (simp add: trim_def m_def)
  from drop_end [of m isWhiteSpace] obtain r where
    m: "m = trim url @ r" and r: "\<forall>ch \<in> set r. isWhiteSpace ch"
    and lst: "trim url \<noteq> [] \<longrightarrow> \<not> isWhiteSpace (last (trim url))"
    unfolding t by blast
  have "url = takeWhile isWhiteSpace url @ m" by (simp add: m_def)
  then have url: "url = takeWhile isWhiteSpace url @ trim url @ r" by (metis m)
  have l: "\<forall>ch \<in> set (takeWhile isWhiteSpace url). isWhiteSpace ch"
    by (auto dest: set_takeWhileD)
  have "trim url \<noteq> [] \<longrightarrow> \<not> isWhiteSpace (hd (trim url))"
  proof
    assume ne: "trim url \<noteq> []"
    with m have "m \<noteq> []" and "hd m = hd (trim url)" by simp_all
    then show "\<not> isWhiteSpace (hd (trim url))"
      using hd_dropWhile [of isWhiteSpace url] by (simp add: m_def)
  qed
  with url l r lst show ?thesis by blast
qed

lemma strip_spec:
  "\<exists>n. s = stripTrailingSlashes s @ replicate n slash \<and>
       (stripTrailingSlashes s \<noteq> [] \<longrightarrow> last (stripTrailingSlashes s) \<noteq> slash)"
proof -
  from drop_end [of s "\<lambda>c. c = slash"] obtain r where
    s: "s = stripTrailingSlashes s @ r" and r: "\<forall>ch \<in> set r. ch = slash"
    and lst: "stripTrailingSlashes s \<noteq> [] \<longrightarrow> last (stripTrailingSlashes s) \<noteq> slash"
    unfolding stripTrailingSlashes_def by blast
  from r have "replicate (length r) slash = r" by (intro replicate_length_same) simp
  with s lst show ?thesis by metis
qed

text \<open>
  Claim C6, as amended. \<^verbatim>\<open>extractOrgName\<close> removes the white space around the input
  and then the slashes at its end. What is left is handed to the parser as it is when
  it starts with the four characters \<^verbatim>\<open>http\<close>, and with \<^verbatim>\<open>https://\<close> in front when it
  lacks a scheme and does not start with \<^verbatim>\<open>http\<close>. The function returns null when the
  parser fails or the parsed host does not contain \<^verbatim>\<open>github.com\<close>, and otherwise the
  first non-empty segment of the parsed path, null when the path has none. It never
  raises: the result is always a value. Nothing is said of what is parsed for a string
  that carries a scheme and does not start with \<^verbatim>\<open>http\<close>.
\<close>

theorem extractOrgName_resolves:
  "\<exists>l r n cleaned candidate.
     url = l @ cleaned @ replicate n slash @ r \<and>
     (\<forall>ch \<in> set l. isWhiteSpace ch) \<and> (\<forall>ch \<in> set r. isWhiteSpace ch) \<and>
     (cleaned @ replicate n slash \<noteq> [] \<longrightarrow>
        \<not> isWhiteSpace (hd (cleaned @ replicate n slash)) \<and>
        \<not> isWhiteSpace (last (cleaned @ replicate n slash))) \<and>
     (cleaned \<noteq> [] \<longrightarrow> last cleaned \<noteq> slash) \<and>
     ((\<exists>rest. cleaned = lit ''http'' @ rest) \<longrightarrow> candidate = cleaned) \<and>
     (\<not> hasScheme cleaned \<and> \<not> (\<exists>rest. cleaned = lit ''http'' @ rest) \<longrightarrow>
        candidate = lit ''https://'' @ cleaned) \<and>
     extractOrgName parse url =
       (case parse candidate of
          None \<Rightarrow> None
        | Some urlObj \<Rightarrow>
            if (\<exists>a b. hostname urlObj = a @ ''github.com'' @ b)
            then firstPathSegment (pathname urlObj) else None)"
proof -
  define cleaned where "cleaned = stripTrailingSlashes (trim url)"
  from trim_spec [of url] obtain l r where
    url: "url = l @ trim url @ r" and l: "\<forall>ch \<in> set l. isWhiteSpace ch"
    and r: "\<forall>ch \<in> set r. isWhiteSpace ch"
    and ends: "trim url \<noteq> [] \<longrightarrow>
                 \<not> isWhiteSpace (hd (trim url)) \<and> \<not> isWhiteSpace (last (trim url))"
    by blast
  from strip_spec [of "trim url"] obtain n where
    t: "trim url = cleaned @ replicate n slash"
    and lst: "cleaned \<noteq> [] \<longrightarrow> last cleaned \<noteq> slash"
    unfolding cleaned_def by blast
  have url': "url = l @ cleaned @ replicate n slash @ r"
    using url by (simp add: t)
  have ends': "cleaned @ replicate n slash \<noteq> [] \<longrightarrow>
        \<not> isWhiteSpace (hd (cleaned @ replicate n slash)) \<and>
        \<not> isWhiteSpace (last (cleaned @ replicate n slash))"
    using ends unfolding t .
  have arg: "urlArgument url =
       (if (\<exists>rest. cleaned = lit ''http'' @ rest) then cleaned else lit ''https://'' @ cleaned)"
    by (simp only: urlArgument_def Let_def cleaned_def [symmetric] startsWith_iff)
  have asis: "(\<exists>rest. cleaned = lit ''http'' @ rest) \<longrightarrow> urlArgument url = cleaned"
    by (simp add: arg)
  have pre: "\<not> hasScheme cleaned \<and> \<not> (\<exists>rest. cleaned = lit ''http'' @ rest) \<longrightarrow>
        urlArgument url = lit ''https://'' @ cleaned"
    by (simp add: arg)
  have res: "extractOrgName parse url =
       (case parse (urlArgument url) of
          None \<Rightarrow> None
        | Some urlObj \<Rightarrow>
            if (\<exists>a b. hostname urlObj = a @ ''github.com'' @ b)
            then firstPathSegment (pathname urlObj) else None)"
    by (simp add: extractOrgName_def first_segment includesStr_iff split: option.splits)
  from url' l r ends' lst asis pre res show ?thesis by (intro exI conjI)
qed

theorem extractOrgName_resolves_witness:
  "\<not> hasScheme (lit ''github.com/acme'') \<and>
   \<not> (\<exists>rest. lit ''github.com/acme'' = lit ''http'' @ rest) \<and>
   isWhiteSpace 12288 \<and> isWhiteSpace 8232 \<and>
   extractOrgName sampleParse (12288 # lit '' github.com/acme//'' @ [8232]) = Some ''acme'' \<and>
   (\<exists>l r n cleaned candidate.
     12288 # lit '' github.com/acme//'' @ [8232] = l @ cleaned @ replicate n slash @ r \<and>
     (\<forall>ch \<in> set l. isWhiteSpace ch) \<and> (\<forall>ch \<in> set r. isWhiteSpace ch) \<and>
     (cleaned @ replicate n slash \<noteq> [] \<longrightarrow>
        \<not> isWhiteSpace (hd (cleaned @ replicate n slash)) \<and>
        \<not> isWhiteSpace (last (cleaned @ replicate n slash))) \<and>
     (cleaned \<noteq> [] \<longrightarrow> last cleaned \<noteq> slash) \<and>
     ((\<exists>rest. cleaned = lit ''http'' @ rest) \<longrightarrow> candidate = cleaned) \<and>
     (\<not> hasScheme cleaned \<and> \<not> (\<exists>rest. cleaned = lit ''http'' @ rest) \<longrightarrow>
        candidate = lit ''https://'' @ cleaned) \<and>
     extractOrgName sampleParse (12288 # lit '' github.com/acme//'' @ [8232]) =
       (case sampleParse candidate of
          None \<Rightarrow> None
        | Some urlObj \<Rightarrow>
            if (\<exists>a b. hostname urlObj = a @ ''github.com'' @ b)
            then firstPathSegment (pathname urlObj) else None))"
proof -
  have a: "\<not> hasScheme (lit ''github.com/acme'')" by code_simp
  have "\<not> startsWith (lit ''github.com/acme'') (lit ''http'')" by code_simp
  then have b: "\<not> (\<exists>rest. lit ''github.com/acme'' = lit ''http'' @ rest)"
    unfolding startsWith_iff .
  have c: "isWhiteSpace 12288" by code_simp
  have d: "isWhiteSpace 8232" by code_simp
  have e: "extractOrgName sampleParse (12288 # lit '' github.com/acme//'' @ [8232]) = Some ''acme''"
    by code_simp
  from a b c d e
    extractOrgName_resolves [of "12288 # lit '' github.com/acme//'' @ [8232]" sampleParse]
  show ?thesis by (intro conjI)
qed

text \<open>
  Claim C6 as stated fails: \<^verbatim>\<open>http.github.com/acme\<close> lacks a scheme, so the
  specification's algorithm puts \<^verbatim>\<open>https://\<close> in front and resolves \<open>acme\<close>; the code
  tests \<^verbatim>\<open>startsWith("http")\<close>, hands the string to the parser as it is, the parser
  throws, and the result is null.
\<close>

theorem extractOrgName_scheme_counterexample:
  "\<not> hasScheme (stripTrailingSlashes (trim (lit ''http.github.com/acme''))) \<and>
   urlArgument (lit ''http.github.com/acme'') = lit ''http.github.com/acme'' \<and>
   extract_org_spec sampleParse (lit ''http.github.com/acme'') = Some ''acme'' \<and>
   extractOrgName sampleParse (lit ''http.github.com/acme'') = None"
  by code_simp

text \<open>
  The test \<^verbatim>\<open>startsWith("http")\<close> compares code units: a scheme written in capitals is
  not recognised and the string gets the prefix all the same. The amended claim says
  nothing of such a string.
\<close>

lemma urlArgument_upper_case_scheme:
  "hasScheme (lit ''HTTP://github.com/acme'') \<and>
   urlArgument (lit ''HTTP://github.com/acme'') = lit ''https://HTTP://github.com/acme''"
  by code_simp

section \<open>BatchScheduler and ProgressStream: the emitted stream\<close>

text \<open>Events of the tasks of a window.\<close>

lemma runSchedule_events:
  assumes "runSchedule sched ts out settled = (ts', out', settled')"
    and "\<forall>e \<in> set out. P e"
    and "\<forall>es. Running es \<in> set ts \<longrightarrow> (\<forall>e \<in> set es. P e)"
  shows "(\<forall>e \<in> set out'. P e) \<and> (\<forall>es. Running es \<in> set ts' \<longrightarrow> (\<forall>e \<in> set es. P e))"
  using assms
proof (induction sched arbitrary: ts out settled)
  case Nil
  then show ?case by simp
next
  case (Cons i sched)
  show ?case
  proof (cases "i < length ts")
    case False
    with Cons.prems(1) have "runSchedule sched ts out settled = (ts', out', settled')" by simp
    from Cons.IH [OF this Cons.prems(2,3)] show ?thesis .
  next
    case True
    then have mem: "ts ! i \<in> set ts" by simp
    show ?thesis
    proof (cases "ts ! i")
      case Settled
      with True Cons.prems(1) have "runSchedule sched ts out settled = (ts', out', settled')"
        by simp
      from Cons.IH [OF this Cons.prems(2,3)] show ?thesis .
    next
      case (Running es)
      show ?thesis
      proof (cases es)
        case Nil
        with Running True Cons.prems(1)
        have run: "runSchedule sched (ts[i := Settled]) out (settled @ [i]) = (ts', out', settled')"
          by simp
        have "\<forall>es. Running es \<in> set (ts[i := Settled]) \<longrightarrow> (\<forall>e \<in> set es. P e)"
          using Cons.prems(3) set_update_subset_insert [of ts i Settled] by auto
        from Cons.IH [OF run Cons.prems(2) this] show ?thesis .
      next
        case (Cons e es')
        with Running True Cons.prems(1)
        have run: "runSchedule sched (ts[i := Running es']) (out @ [e]) settled = (ts', out', settled')"
          by simp
        from mem Running Cons Cons.prems(3) have pe: "P e" and pes: "\<forall>x \<in> set es'. P x"
          by auto
        have a: "\<forall>x \<in> set (out @ [e]). P x" using Cons.prems(2) pe by simp
        have b: "\<forall>es. Running es \<in> set (ts[i := Running es']) \<longrightarrow> (\<forall>e \<in> set es. P e)"
          using Cons.prems(3) pes set_update_subset_insert [of ts i "Running es'"] by auto
        from Cons.IH [OF run a b] show ?thesis .
      qed
    qed
  qed
qed

lemma finishAll_events:
  assumes "\<forall>e \<in> set out. P e"
    and "\<forall>es. Running es \<in> set ts \<longrightarrow> (\<forall>e \<in> set es. P e)"
  shows "\<forall>e \<in> set (fst (finishAll k ts out settled)). P e"
  using assms
proof (induction k ts out settled rule: finishAll.induct)
  case (1 i out settled)
  then show ?case by simp
next
  case (2 i es ts out settled)
  then show ?case by auto
next
  case (3 i ts out settled)
  then show ?case by auto
qed

lemma runTasks_events:
  assumes "\<forall>es \<in> set steps. \<forall>e \<in> set es. P e"
  shows "\<forall>e \<in> set (fst (runTasks sched steps)). P e"
proof -
  obtain ts out settled where
    run: "runSchedule sched (map Running steps) [] [] = (ts, out, settled)"
    by (metis prod_cases3)
  have "\<forall>es. Running es \<in> set (map Running steps) \<longrightarrow> (\<forall>e \<in> set es. P e)"
    using assms by auto
  with runSchedule_events [OF run, of P]
  have "(\<forall>e \<in> set out. P e) \<and> (\<forall>es. Running es \<in> set ts \<longrightarrow> (\<forall>e \<in> set es. P e))"
    by simp
  then have "\<forall>e \<in> set (fst (finishAll 0 ts out settled)). P e"
    by (intro finishAll_events) simp_all
  with run show ?thesis by (simp add: runTasks_def)
qed

text \<open>Every task of a window settles exactly once.\<close>

lemma runSchedule_settled:
  assumes "runSchedule sched ts out settled = (ts', out', settled')"
    and "distinct settled" and "\<forall>j. j \<in> set settled \<longleftrightarrow> j < length ts \<and> ts ! j = Settled"
  shows "length ts' = length ts \<and> distinct settled' \<and>
         (\<forall>j. j \<in> set settled' \<longleftrightarrow> j < length ts' \<and> ts' ! j = Settled)"
  using assms
proof (induction sched arbitrary: ts out settled)
  case Nil
  then show ?case by simp
next
  case (Cons i sched)
  note inv = \<open>\<forall>j. j \<in> set settled \<longleftrightarrow> j < length ts \<and> ts ! j = Settled\<close>
  show ?case
  proof (cases "i < length ts")
    case False
    with Cons.prems(1) have "runSchedule sched ts out settled = (ts', out', settled')" by simp
    from Cons.IH [OF this Cons.prems(2,3)] show ?thesis .
  next
    case True
    show ?thesis
    proof (cases "ts ! i")
      case Settled
      with True Cons.prems(1) have "runSchedule sched ts out settled = (ts', out', settled')"
        by simp
      from Cons.IH [OF this Cons.prems(2,3)] show ?thesis .
    next
      case (Running es)
      show ?thesis
      proof (cases es)
        case Nil
        with Running True Cons.prems(1)
        have run: "runSchedule sched (ts[i := Settled]) out (settled @ [i]) = (ts', out', settled')"
          by simp
        from Running inv have "i \<notin> set settled" by simp
        with Cons.prems(2) have d: "distinct (settled @ [i])" by simp
        have s: "\<forall>j. j \<in> set (settled @ [i]) \<longleftrightarrow>
                   j < length (ts[i := Settled]) \<and> ts[i := Settled] ! j = Settled"
        proof
          fix j
          show "j \<in> set (settled @ [i]) \<longleftrightarrow>
                   j < length (ts[i := Settled]) \<and> ts[i := Settled] ! j = Settled"
          proof (cases "j = i")
            case True
            with \<open>i < length ts\<close> show ?thesis by simp
          next
            case False
            then have "ts[i := Settled] ! j = ts ! j" by simp
            with False inv show ?thesis by simp
          qed
        qed
        from Cons.IH [OF run d s] show ?thesis by simp
      next
        case (Cons e es')
        with Running True Cons.prems(1)
        have run: "runSchedule sched (ts[i := Running es']) (out @ [e]) settled = (ts', out', settled')"
          by simp
        have s: "\<forall>j. j \<in> set settled \<longleftrightarrow>
                   j < length (ts[i := Running es']) \<and> ts[i := Running es'] ! j = Settled"
        proof
          fix j
          show "j \<in> set settled \<longleftrightarrow>
                   j < length (ts[i := Running es']) \<and> ts[i := Running es'] ! j = Settled"
          proof (cases "j = i")
            case True
            with \<open>i < length ts\<close> Running inv show ?thesis by simp
          next
            case False
            then have "ts[i := Running es'] ! j = ts ! j" by simp
            with False inv show ?thesis by simp
          qed
        qed
        from Cons.IH [OF run Cons.prems(2) s] show ?thesis by simp
      qed
    qed
  qed
qed

lemma finishAll_settled:
  "snd (finishAll k ts out settled) =
     settled @ map fst (filter (\<lambda>(j, t). t \<noteq> Settled) (zip [k..<k + length ts] ts))"
proof (induction k ts out settled rule: finishAll.induct)
  case (1 i out settled)
  then show ?case by simp
next
  case (2 i es ts out settled)
  have "[i..<i + length (Running es # ts)] = i # [i + 1..<i + 1 + length ts]"
    by (subst upt_rec) simp
  with 2 show ?case by simp
next
  case (3 i ts out settled)
  have "[i..<i + length (Settled # ts)] = i # [i + 1..<i + 1 + length ts]"
    by (subst upt_rec) simp
  with 3 show ?case by simp
qed

lemma runTasks_settle_once:
  "distinct (snd (runTasks sched steps)) \<and>
   set (snd (runTasks sched steps)) = {0..<length steps}"
proof -
  obtain ts out settled where
    run: "runSchedule sched (map Running steps) [] [] = (ts, out, settled)"
    by (metis prod_cases3)
  have inv0: "\<forall>j. j \<in> set [] \<longleftrightarrow>
      j < length (map Running steps) \<and> map Running steps ! j = Settled"
    by simp
  have d0: "distinct ([] :: nat list)" by simp
  note inv = runSchedule_settled [OF run d0 inv0]
  from inv [THEN conjunct1] have len: "length ts = length steps" by simp
  note d = inv [THEN conjunct2, THEN conjunct1]
  note s' = inv [THEN conjunct2, THEN conjunct2]
  have s: "set settled = {i. i < length ts \<and> ts ! i = Settled}"
    by (intro set_eqI) (simp add: s')
  define rest where
    "rest = map fst (filter (\<lambda>(j, t). t \<noteq> Settled) (zip [0..<0 + length ts] ts))"
  have res: "snd (runTasks sched steps) = settled @ rest"
    using run finishAll_settled [of 0 ts out settled] by (simp add: runTasks_def rest_def)
  have "distinct (map fst (zip [0..<0 + length ts] ts))" by simp
  then have dr: "distinct rest" unfolding rest_def by (rule distinct_map_filter)
  have sr: "set rest = {i. i < length ts \<and> ts ! i \<noteq> Settled}"
  proof (intro set_eqI iffI)
    fix i assume "i \<in> set rest"
    then have "i \<in> fst ` set (filter (\<lambda>(j, t). t \<noteq> Settled) (zip [0..<0 + length ts] ts))"
      unfolding rest_def set_map .
    then obtain p where p: "i = fst p"
      "p \<in> set (filter (\<lambda>(j, t). t \<noteq> Settled) (zip [0..<0 + length ts] ts))"
      by (rule imageE)
    from p(2) have z: "p \<in> set (zip [0..<0 + length ts] ts)" and ns: "snd p \<noteq> Settled"
      by (simp_all add: case_prod_beta)
    from z obtain n where n: "[0..<0 + length ts] ! n = fst p" "ts ! n = snd p" "n < length ts"
      unfolding in_set_zip by blast
    from n(1,3) have "n = fst p" by simp
    with n p(1) ns show "i \<in> {i. i < length ts \<and> ts ! i \<noteq> Settled}" by simp
  next
    fix i assume "i \<in> {i. i < length ts \<and> ts ! i \<noteq> Settled}"
    then have i: "i < length ts" "ts ! i \<noteq> Settled" by simp_all
    then have "[0..<0 + length ts] ! i = i" by simp
    with i have "(i, ts ! i) \<in> set (zip [0..<0 + length ts] ts)"
      unfolding in_set_zip by (intro exI [of _ i]) simp
    with i(2) have "(i, ts ! i) \<in> set (filter (\<lambda>(j, t). t \<noteq> Settled) (zip [0..<0 + length ts] ts))"
      by simp
    then have "fst (i, ts ! i) \<in> set rest" unfolding rest_def set_map by (rule imageI)
    then show "i \<in> set rest" by simp
  qed
  have "set settled \<inter> set rest = {}" unfolding s sr by auto
  with d dr have "distinct (settled @ rest)" by simp
  moreover have "set (settled @ rest) = {0..<length steps}"
  proof -
    have "set (settled @ rest) = {i. i < length ts}" unfolding set_append s sr by auto
    moreover have "{i. i < length ts} = {0..<length steps}" unfolding len by auto
    ultimately show ?thesis by (rule trans)
  qed
  ultimately show ?thesis by (simp add: res)
qed

lemma analyzeCompany_name:
  "snd (analyzeCompany parse w octokit c since) = Inr v \<Longrightarrow>
   company_name v = company_name c \<and> github_org_url v = github_org_url c"
  by (auto simp: analyzeCompany_def notApplicable_def Let_def
      split: option.splits sum.splits if_splits)

lemma emitSettled_spec:
  "emitSettled batch idx c0 n results =
     (map (\<lambda>k. settledEvent batch (idx + k) (c0 + k + 1) n (results ! k)) [0..<length results],
      c0 + length results)"
proof (induction results arbitrary: idx c0)
  case Nil
  then show ?case by simp
next
  case (Cons r rs)
  have "map (\<lambda>k. settledEvent batch (idx + k) (c0 + k + 1) n ((r # rs) ! k)) [0..<length (r # rs)] =
        settledEvent batch idx (c0 + 1) n r #
        map (\<lambda>k. settledEvent batch (idx + 1 + k) (c0 + 1 + k + 1) n (rs ! k)) [0..<length rs]"
    by (simp add: map_upt_Suc del: upt_Suc)
  with Cons [of "idx + 1" "c0 + 1"] show ?case by simp
qed

lemma settledEvent_fields:
  "isTerminal (settledEvent batch idx c n res) \<and>
   type (settledEvent batch idx c n res) \<noteq> Done \<and>
   type (settledEvent batch idx c n res) \<noteq> Progress \<and>
   completed (settledEvent batch idx c n res) = Some c \<and>
   total (settledEvent batch idx c n res) = Some n"
  by (cases res) (simp_all add: settledEvent_def isTerminal_def Let_def)

lemma settledEvent_company:
  assumes "idx < length batch"
  shows "company (settledEvent batch idx c n
            (snd (analyzeCompany parse w octokit (batch ! idx) since))) =
         Some (company_name (batch ! idx))"
proof (cases "snd (analyzeCompany parse w octokit (batch ! idx) since)")
  case (Inl e)
  with assms show ?thesis by (simp add: settledEvent_def Let_def)
next
  case (Inr v)
  from analyzeCompany_name [OF this] Inr show ?thesis by (simp add: settledEvent_def)
qed


lemma processBatch_spec:
  "\<exists>pre settleOrder.
     processBatch sched parse w octokit since batch c0 n =
       (pre @ map (\<lambda>k. settledEvent batch k (c0 + k + 1) n
                          (snd (analyzeCompany parse w octokit (batch ! k) since)))
                [0..<length batch],
        c0 + length batch, settleOrder) \<and>
     (\<forall>e \<in> set pre. type e = Progress \<and> completed e = Some c0 \<and> total e = Some n) \<and>
     distinct settleOrder \<and> set settleOrder = {0..<length batch}"
proof -
  define runs where "runs = map (\<lambda>c. analyzeCompany parse w octokit c since) batch"
  define started where "started = map (analyzingEvent c0 n) batch"
  define steps where
    "steps = map (\<lambda>(c, r). map (pipelineEvent c0 n c) (fst r)) (zip batch runs)"
  obtain during settleOrder where rt: "runTasks sched steps = (during, settleOrder)"
    by (cases "runTasks sched steps")
  have len: "length steps = length batch" by (simp add: steps_def runs_def)
  have "\<forall>es \<in> set steps. \<forall>e \<in> set es.
          type e = Progress \<and> completed e = Some c0 \<and> total e = Some n"
    by (auto simp: steps_def pipelineEvent_def)
  from runTasks_events [OF this, of sched] rt
  have during: "\<forall>e \<in> set during. type e = Progress \<and> completed e = Some c0 \<and> total e = Some n"
    by simp
  have startedP: "\<forall>e \<in> set started. type e = Progress \<and> completed e = Some c0 \<and> total e = Some n"
    by (auto simp: started_def analyzingEvent_def)
  from runTasks_settle_once [of sched steps] rt len
  have order: "distinct settleOrder" "set settleOrder = {0..<length batch}" by simp_all
  have tm: "map (\<lambda>k. settledEvent batch (0 + k) (c0 + k + 1) n (map snd runs ! k))
                [0..<length (map snd runs)] =
              map (\<lambda>k. settledEvent batch k (c0 + k + 1) n
                          (snd (analyzeCompany parse w octokit (batch ! k) since)))
                [0..<length batch]"
    by (simp add: runs_def)
  have "processBatch sched parse w octokit since batch c0 n =
       ((started @ during) @ map (\<lambda>k. settledEvent batch k (c0 + k + 1) n
                          (snd (analyzeCompany parse w octokit (batch ! k) since)))
                [0..<length batch],
        c0 + length batch, settleOrder)"
    unfolding processBatch_def Let_def runs_def [symmetric] steps_def [symmetric]
      started_def [symmetric] rt emitSettled_spec tm
    by (simp add: runs_def)
  moreover from startedP during
  have "\<forall>e \<in> set (started @ during). type e = Progress \<and> completed e = Some c0 \<and> total e = Some n"
    by auto
  ultimately show ?thesis using order by blast
qed

text \<open>The shape of one window's events and of the whole loop.\<close>

lemma terminal_completed:
  "map completedOf (map (\<lambda>k. settledEvent batch k (c0 + k + 1) n (res k)) [0..<m]) =
   [c0 + 1..<m + (c0 + 1)]"
proof -
  have "map completedOf (map (\<lambda>k. settledEvent batch k (c0 + k + 1) n (res k)) [0..<m]) =
        map (\<lambda>k. k + (c0 + 1)) [0..<m]"
    by (simp add: completedOf_def settledEvent_fields)
  then show ?thesis by (simp only: map_add_upt)
qed

lemma terminal_company:
  "map company (map (\<lambda>k. settledEvent batch k (c0 + k + 1) n
       (snd (analyzeCompany parse w octokit (batch ! k) since))) [0..<length batch]) =
   map (\<lambda>c. Some (company_name c)) batch"
proof (rule nth_equalityI)
  show "length (map company (map (\<lambda>k. settledEvent batch k (c0 + k + 1) n
       (snd (analyzeCompany parse w octokit (batch ! k) since))) [0..<length batch])) =
     length (map (\<lambda>c. Some (company_name c)) batch)" by simp
next
  fix i
  assume "i < length (map company (map (\<lambda>k. settledEvent batch k (c0 + k + 1) n
       (snd (analyzeCompany parse w octokit (batch ! k) since))) [0..<length batch]))"
  then have i: "i < length batch" by simp
  then show "map company (map (\<lambda>k. settledEvent batch k (c0 + k + 1) n
       (snd (analyzeCompany parse w octokit (batch ! k) since))) [0..<length batch]) ! i =
     map (\<lambda>c. Some (company_name c)) batch ! i"
    by (simp add: settledEvent_company)
qed

lemma processFrom_end:
  "\<not> i < length cs \<Longrightarrow> processFrom sched parse w octokit since cs i c0 = []"
  by (simp add: processFrom.simps)

lemma processFrom_step:
  assumes "i < length cs"
  shows "\<exists>pre. processFrom sched parse w octokit since cs i c0 =
           (pre @ map (\<lambda>k. settledEvent (slice cs i (i + BATCH_SIZE)) k (c0 + k + 1) (length cs)
                          (snd (analyzeCompany parse w octokit
                                  (slice cs i (i + BATCH_SIZE) ! k) since)))
                    [0..<length (slice cs i (i + BATCH_SIZE))]) @
           processFrom sched parse w octokit since cs (i + BATCH_SIZE)
             (c0 + length (slice cs i (i + BATCH_SIZE))) \<and>
         (\<forall>e \<in> set pre. type e = Progress \<and> completed e = Some c0 \<and> total e = Some (length cs))"
proof -
  from processBatch_spec [of "sched i" parse w octokit since "slice cs i (i + BATCH_SIZE)" c0 "length cs"]
  obtain pre settleOrder where
    pb: "processBatch (sched i) parse w octokit since (slice cs i (i + BATCH_SIZE)) c0 (length cs) =
       (pre @ map (\<lambda>k. settledEvent (slice cs i (i + BATCH_SIZE)) k (c0 + k + 1) (length cs)
                          (snd (analyzeCompany parse w octokit
                                  (slice cs i (i + BATCH_SIZE) ! k) since)))
                [0..<length (slice cs i (i + BATCH_SIZE))],
        c0 + length (slice cs i (i + BATCH_SIZE)), settleOrder)"
    and pre: "\<forall>e \<in> set pre. type e = Progress \<and> completed e = Some c0 \<and> total e = Some (length cs)"
    by blast
  have "processFrom sched parse w octokit since cs i c0 =
           (pre @ map (\<lambda>k. settledEvent (slice cs i (i + BATCH_SIZE)) k (c0 + k + 1) (length cs)
                          (snd (analyzeCompany parse w octokit
                                  (slice cs i (i + BATCH_SIZE) ! k) since)))
                    [0..<length (slice cs i (i + BATCH_SIZE))]) @
           processFrom sched parse w octokit since cs (i + BATCH_SIZE)
             (c0 + length (slice cs i (i + BATCH_SIZE)))"
    using assms by (subst processFrom.simps) (simp add: pb)
  with pre show ?thesis by blast
qed

lemma slice_window:
  "i < length cs \<Longrightarrow>
   length (slice cs i (i + BATCH_SIZE)) = min BATCH_SIZE (length cs - i) \<and>
   slice cs i (i + BATCH_SIZE) @ drop (i + BATCH_SIZE) cs = drop i cs"
proof -
  have "take BATCH_SIZE (drop i cs) @ drop BATCH_SIZE (drop i cs) = drop i cs"
    by (rule append_take_drop_id)
  then show ?thesis by (simp add: slice_def add.commute)
qed

lemma window_terminal:
  assumes "\<forall>e \<in> set pre. type e = Progress \<and> completed e = Some c0 \<and> total e = Some n"
  shows "filter isTerminal (pre @ map (\<lambda>k. settledEvent batch k (c0 + k + 1) n (res k)) [0..<m]) =
         map (\<lambda>k. settledEvent batch k (c0 + k + 1) n (res k)) [0..<m]"
proof -
  from assms have "\<forall>e \<in> set pre. \<not> isTerminal e" by (simp add: isTerminal_def)
  then have "filter isTerminal pre = []" by simp
  moreover have "\<forall>e \<in> set (map (\<lambda>k. settledEvent batch k (c0 + k + 1) n (res k)) [0..<m]).
                   isTerminal e"
    by (simp add: settledEvent_fields)
  then have "filter isTerminal (map (\<lambda>k. settledEvent batch k (c0 + k + 1) n (res k)) [0..<m]) =
             map (\<lambda>k. settledEvent batch k (c0 + k + 1) n (res k)) [0..<m]"
    by (rule filter_True)
  ultimately show ?thesis by (simp only: filter_append append_Nil)
qed

lemma window_completed:
  assumes "\<forall>e \<in> set pre. type e = Progress \<and> completed e = Some c0 \<and> total e = Some n"
  shows "map completedOf (pre @ map (\<lambda>k. settledEvent batch k (c0 + k + 1) n (res k)) [0..<m]) =
         replicate (length pre) c0 @ [c0 + 1..<m + (c0 + 1)]"
proof -
  from assms have "\<forall>e \<in> set pre. completedOf e = c0" by (simp add: completedOf_def)
  then have "map completedOf pre = map (\<lambda>e. c0) pre" by simp
  then have "map completedOf pre = replicate (length pre) c0" by (simp only: map_replicate_const)
  then show ?thesis by (simp only: map_append terminal_completed)
qed

lemma window_fields:
  assumes "\<forall>e \<in> set pre. type e = Progress \<and> completed e = Some c0 \<and> total e = Some n"
  shows "\<forall>e \<in> set (pre @ map (\<lambda>k. settledEvent batch k (c0 + k + 1) n (res k)) [0..<m]).
           total e = Some n \<and> type e \<noteq> Done \<and> completed e \<noteq> None"
proof -
  from assms have "\<forall>e \<in> set pre. total e = Some n \<and> type e \<noteq> Done \<and> completed e \<noteq> None"
    by simp
  moreover have "\<forall>e \<in> set (map (\<lambda>k. settledEvent batch k (c0 + k + 1) n (res k)) [0..<m]).
           total e = Some n \<and> type e \<noteq> Done \<and> completed e \<noteq> None"
    by (simp add: settledEvent_fields)
  ultimately show ?thesis unfolding set_append by blast
qed

lemma window_values:
  "sorted (replicate p c0 @ [c0 + 1..<m + (c0 + 1)]) \<and>
   (\<forall>x \<in> set (replicate p c0 @ [c0 + 1..<m + (c0 + 1)]). c0 \<le> x \<and> x \<le> c0 + m) \<and>
   (\<forall>j < p + m. 0 < m \<longrightarrow> (replicate p (c0::nat) @ [c0 + 1..<m + (c0 + 1)]) ! j = c0 + m \<longrightarrow>
        Suc j = p + m)"
proof (intro conjI allI impI ballI)
  show "sorted (replicate p c0 @ [c0 + 1..<m + (c0 + 1)])"
    by (auto simp: sorted_append)
next
  fix x assume "x \<in> set (replicate p c0 @ [c0 + 1..<m + (c0 + 1)])"
  then have "x = c0 \<or> (c0 + 1 \<le> x \<and> x < m + (c0 + 1))" by auto
  then show "c0 \<le> x" and "x \<le> c0 + m" by auto
next
  fix j assume j: "j < p + m" and m: "0 < m"
    and v: "(replicate p c0 @ [c0 + 1..<m + (c0 + 1)]) ! j = c0 + m"
  show "Suc j = p + m"
  proof (cases "j < p")
    case True
    then have "(replicate p c0 @ [c0 + 1..<m + (c0 + 1)]) ! j = c0" by (simp add: nth_append)
    with v m show ?thesis by simp
  next
    case False
    from False j have "c0 + 1 + (j - p) < m + (c0 + 1)" by arith
    then have "[c0 + 1..<m + (c0 + 1)] ! (j - p) = c0 + 1 + (j - p)" by (rule nth_upt)
    moreover from False
    have "(replicate p c0 @ [c0 + 1..<m + (c0 + 1)]) ! j = [c0 + 1..<m + (c0 + 1)] ! (j - p)"
      by (simp only: nth_append length_replicate if_False)
    ultimately have "c0 + 1 + (j - p) = c0 + m" using v by (simp only:)
    with False show ?thesis by arith
  qed
qed

lemma processFrom_unfold:
  assumes "i < length cs"
  shows "\<exists>pre batch res m.
     m = min BATCH_SIZE (length cs - i) \<and> 0 < m \<and>
     (\<forall>e \<in> set pre. type e = Progress \<and> completed e = Some c0 \<and> total e = Some (length cs)) \<and>
     processFrom sched parse w octokit since cs i c0 =
       (pre @ map (\<lambda>k. settledEvent batch k (c0 + k + 1) (length cs) (res k)) [0..<m]) @
       processFrom sched parse w octokit since cs (i + BATCH_SIZE) (c0 + m) \<and>
     map company (map (\<lambda>k. settledEvent batch k (c0 + k + 1) (length cs) (res k)) [0..<m]) =
       map (\<lambda>c. Some (company_name c)) (take BATCH_SIZE (drop i cs))"
proof -
  define batch where "batch = slice cs i (i + BATCH_SIZE)"
  define res where "res = (\<lambda>k. snd (analyzeCompany parse w octokit (batch ! k) since))"
  from slice_window [OF assms] have len: "length batch = min BATCH_SIZE (length cs - i)"
    by (simp add: batch_def)
  with assms have pos: "0 < length batch" by (simp add: BATCH_SIZE_def)
  from processFrom_step [OF assms, of sched parse w octokit since c0, folded batch_def]
  obtain pre where
    run0: "processFrom sched parse w octokit since cs i c0 =
       (pre @ map (\<lambda>k. settledEvent batch k (c0 + k + 1) (length cs)
                          (snd (analyzeCompany parse w octokit (batch ! k) since)))
                [0..<length batch]) @
       processFrom sched parse w octokit since cs (i + BATCH_SIZE) (c0 + length batch)"
    and pre: "\<forall>e \<in> set pre. type e = Progress \<and> completed e = Some c0 \<and> total e = Some (length cs)"
    by blast
  from run0 have run: "processFrom sched parse w octokit since cs i c0 =
       (pre @ map (\<lambda>k. settledEvent batch k (c0 + k + 1) (length cs) (res k)) [0..<length batch]) @
       processFrom sched parse w octokit since cs (i + BATCH_SIZE) (c0 + length batch)"
    by (simp only: res_def)
  have names: "map company (map (\<lambda>k. settledEvent batch k (c0 + k + 1) (length cs) (res k))
                  [0..<length batch]) =
       map (\<lambda>c. Some (company_name c)) (take BATCH_SIZE (drop i cs))"
    unfolding res_def terminal_company by (simp add: batch_def slice_def)
  from len pos pre run names show ?thesis by blast
qed

lemma processFrom_fields:
  "\<forall>e \<in> set (processFrom sched parse w octokit since cs i c0).
     total e = Some (length cs) \<and> type e \<noteq> Done \<and> completed e \<noteq> None"
proof (induction "length cs - i" arbitrary: i c0 rule: less_induct)
  case less
  show ?case
  proof (cases "i < length cs")
    case False
    then show ?thesis by (simp add: processFrom_end)
  next
    case True
    from processFrom_unfold [OF True, of c0 sched parse w octokit since]
    obtain pre batch res m where
      pre: "\<forall>e \<in> set pre. type e = Progress \<and> completed e = Some c0 \<and> total e = Some (length cs)"
      and run: "processFrom sched parse w octokit since cs i c0 =
         (pre @ map (\<lambda>k. settledEvent batch k (c0 + k + 1) (length cs) (res k)) [0..<m]) @
         processFrom sched parse w octokit since cs (i + BATCH_SIZE) (c0 + m)"
      by blast
    from True have "length cs - (i + BATCH_SIZE) < length cs - i" by (simp add: BATCH_SIZE_def)
    from less [OF this]
    have rest: "\<forall>e \<in> set (processFrom sched parse w octokit since cs (i + BATCH_SIZE) (c0 + m)).
       total e = Some (length cs) \<and> type e \<noteq> Done \<and> completed e \<noteq> None" .
    from window_fields [OF pre, of batch res m] rest
    show ?thesis unfolding run set_append by blast
  qed
qed

lemma processFrom_terminal:
  "map company (filter isTerminal (processFrom sched parse w octokit since cs i c0)) =
     map (\<lambda>c. Some (company_name c)) (drop i cs) \<and>
   map completedOf (filter isTerminal (processFrom sched parse w octokit since cs i c0)) =
     [c0 + 1..<(length cs - i) + (c0 + 1)]"
proof (induction "length cs - i" arbitrary: i c0 rule: less_induct)
  case less
  show ?case
  proof (cases "i < length cs")
    case False
    then show ?thesis by (simp add: processFrom_end)
  next
    case True
    from processFrom_unfold [OF True, of c0 sched parse w octokit since]
    obtain pre batch res m where
      m: "m = min BATCH_SIZE (length cs - i)"
      and pre: "\<forall>e \<in> set pre. type e = Progress \<and> completed e = Some c0 \<and> total e = Some (length cs)"
      and run: "processFrom sched parse w octokit since cs i c0 =
         (pre @ map (\<lambda>k. settledEvent batch k (c0 + k + 1) (length cs) (res k)) [0..<m]) @
         processFrom sched parse w octokit since cs (i + BATCH_SIZE) (c0 + m)"
      and names: "map company (map (\<lambda>k. settledEvent batch k (c0 + k + 1) (length cs) (res k)) [0..<m]) =
         map (\<lambda>c. Some (company_name c)) (take BATCH_SIZE (drop i cs))"
      by blast
    from True have "length cs - (i + BATCH_SIZE) < length cs - i" by (simp add: BATCH_SIZE_def)
    from less [OF this, of "c0 + m"]
    have rest_names: "map company (filter isTerminal
          (processFrom sched parse w octokit since cs (i + BATCH_SIZE) (c0 + m))) =
        map (\<lambda>c. Some (company_name c)) (drop (i + BATCH_SIZE) cs)"
      and rest_completed: "map completedOf (filter isTerminal
          (processFrom sched parse w octokit since cs (i + BATCH_SIZE) (c0 + m))) =
        [c0 + m + 1..<(length cs - (i + BATCH_SIZE)) + (c0 + m + 1)]"
      by simp_all
    have filt: "filter isTerminal (processFrom sched parse w octokit since cs i c0) =
        map (\<lambda>k. settledEvent batch k (c0 + k + 1) (length cs) (res k)) [0..<m] @
        filter isTerminal (processFrom sched parse w octokit since cs (i + BATCH_SIZE) (c0 + m))"
    proof -
      have "filter isTerminal (processFrom sched parse w octokit since cs i c0) =
        filter isTerminal (pre @ map (\<lambda>k. settledEvent batch k (c0 + k + 1) (length cs) (res k)) [0..<m]) @
        filter isTerminal (processFrom sched parse w octokit since cs (i + BATCH_SIZE) (c0 + m))"
        unfolding run by (rule filter_append)
      then show ?thesis by (simp only: window_terminal [OF pre])
    qed
    have "take BATCH_SIZE (drop i cs) @ drop (i + BATCH_SIZE) cs = drop i cs"
      using append_take_drop_id [of BATCH_SIZE "drop i cs"] by (simp add: add.commute)
    then have "map (\<lambda>c. Some (company_name c)) (take BATCH_SIZE (drop i cs)) @
               map (\<lambda>c. Some (company_name c)) (drop (i + BATCH_SIZE) cs) =
               map (\<lambda>c. Some (company_name c)) (drop i cs)"
      unfolding map_append [symmetric] by (rule arg_cong)
    then have a: "map company (filter isTerminal (processFrom sched parse w octokit since cs i c0)) =
        map (\<lambda>c. Some (company_name c)) (drop i cs)"
      unfolding filt map_append names rest_names .
    have "[c0 + 1..<m + (c0 + 1)] @ [c0 + m + 1..<(length cs - (i + BATCH_SIZE)) + (c0 + m + 1)] =
          [c0 + 1..<(length cs - i) + (c0 + 1)]"
    proof -
      have e: "(length cs - i) + (c0 + 1) = (m + (c0 + 1)) + (length cs - (i + BATCH_SIZE))"
        using m True by (cases "BATCH_SIZE \<le> length cs - i") simp_all
      have "[c0 + 1..<(m + (c0 + 1)) + (length cs - (i + BATCH_SIZE))] =
            [c0 + 1..<m + (c0 + 1)] @
            [m + (c0 + 1)..<(m + (c0 + 1)) + (length cs - (i + BATCH_SIZE))]"
        by (rule upt_add_eq_append) simp
      moreover have "m + (c0 + 1) = c0 + m + 1" by simp
      moreover have "(m + (c0 + 1)) + (length cs - (i + BATCH_SIZE)) =
                     (length cs - (i + BATCH_SIZE)) + (c0 + m + 1)" by simp
      ultimately show ?thesis unfolding e by (simp only:)
    qed
    then have b: "map completedOf (filter isTerminal (processFrom sched parse w octokit since cs i c0)) =
        [c0 + 1..<(length cs - i) + (c0 + 1)]"
      unfolding filt map_append terminal_completed rest_completed .
    from a b show ?thesis ..
  qed
qed

lemma processFrom_sorted:
  "sorted (map completedOf (processFrom sched parse w octokit since cs i c0)) \<and>
   (\<forall>x \<in> set (map completedOf (processFrom sched parse w octokit since cs i c0)).
      c0 \<le> x \<and> x \<le> c0 + (length cs - i))"
proof (induction "length cs - i" arbitrary: i c0 rule: less_induct)
  case less
  show ?case
  proof (cases "i < length cs")
    case False
    then show ?thesis by (simp add: processFrom_end)
  next
    case True
    from processFrom_unfold [OF True, of c0 sched parse w octokit since]
    obtain pre batch res m where
      m: "m = min BATCH_SIZE (length cs - i)"
      and pre: "\<forall>e \<in> set pre. type e = Progress \<and> completed e = Some c0 \<and> total e = Some (length cs)"
      and run: "processFrom sched parse w octokit since cs i c0 =
         (pre @ map (\<lambda>k. settledEvent batch k (c0 + k + 1) (length cs) (res k)) [0..<m]) @
         processFrom sched parse w octokit since cs (i + BATCH_SIZE) (c0 + m)"
      by blast
    define vals where "vals = replicate (length pre) c0 @ [c0 + 1..<m + (c0 + 1)]"
    define rest where
      "rest = map completedOf (processFrom sched parse w octokit since cs (i + BATCH_SIZE) (c0 + m))"
    have "map completedOf (processFrom sched parse w octokit since cs i c0) =
        map completedOf (pre @ map (\<lambda>k. settledEvent batch k (c0 + k + 1) (length cs) (res k)) [0..<m]) @
        rest"
      unfolding run rest_def by (rule map_append)
    then have all: "map completedOf (processFrom sched parse w octokit since cs i c0) = vals @ rest"
      by (simp only: window_completed [OF pre] vals_def)
    from True have "length cs - (i + BATCH_SIZE) < length cs - i" by (simp add: BATCH_SIZE_def)
    from less [OF this, of "c0 + m"]
    have rs: "sorted rest"
      and rb: "\<forall>x \<in> set rest. c0 + m \<le> x \<and> x \<le> c0 + m + (length cs - (i + BATCH_SIZE))"
      unfolding rest_def by simp_all
    from window_values [of "length pre" c0 m]
    have vs: "sorted vals" and vb: "\<forall>x \<in> set vals. c0 \<le> x \<and> x \<le> c0 + m"
      unfolding vals_def by simp_all
    have le: "m + (length cs - (i + BATCH_SIZE)) \<le> length cs - i"
      using m by (cases "BATCH_SIZE \<le> length cs - i") simp_all
    have "sorted (vals @ rest)"
      unfolding sorted_append using vs rs vb rb by fastforce
    moreover have "\<forall>x \<in> set (vals @ rest). c0 \<le> x \<and> x \<le> c0 + (length cs - i)"
    proof
      fix x assume "x \<in> set (vals @ rest)"
      then have "x \<in> set vals \<or> x \<in> set rest" by simp
      then show "c0 \<le> x \<and> x \<le> c0 + (length cs - i)"
      proof
        assume "x \<in> set vals"
        with vb have "c0 \<le> x \<and> x \<le> c0 + m" by blast
        with le show ?thesis by arith
      next
        assume "x \<in> set rest"
        with rb have "c0 + m \<le> x \<and> x \<le> c0 + m + (length cs - (i + BATCH_SIZE))" by blast
        with le show ?thesis by arith
      qed
    qed
    ultimately show ?thesis unfolding all ..
  qed
qed

lemma processFrom_last:
  "\<forall>j < length (processFrom sched parse w octokit since cs i c0).
     completedOf (processFrom sched parse w octokit since cs i c0 ! j) = c0 + (length cs - i) \<longrightarrow>
     Suc j = length (processFrom sched parse w octokit since cs i c0)"
proof (induction "length cs - i" arbitrary: i c0 rule: less_induct)
  case less
  show ?case
  proof (cases "i < length cs")
    case False
    then show ?thesis by (simp add: processFrom_end)
  next
    case True
    from processFrom_unfold [OF True, of c0 sched parse w octokit since]
    obtain pre batch res m where
      m: "m = min BATCH_SIZE (length cs - i)" and pos: "0 < m"
      and pre: "\<forall>e \<in> set pre. type e = Progress \<and> completed e = Some c0 \<and> total e = Some (length cs)"
      and run: "processFrom sched parse w octokit since cs i c0 =
         (pre @ map (\<lambda>k. settledEvent batch k (c0 + k + 1) (length cs) (res k)) [0..<m]) @
         processFrom sched parse w octokit since cs (i + BATCH_SIZE) (c0 + m)"
      by blast
    define win where
      "win = pre @ map (\<lambda>k. settledEvent batch k (c0 + k + 1) (length cs) (res k)) [0..<m]"
    define rest where
      "rest = processFrom sched parse w octokit since cs (i + BATCH_SIZE) (c0 + m)"
    have all: "processFrom sched parse w octokit since cs i c0 = win @ rest"
      unfolding run win_def rest_def ..
    have lw: "length win = length pre + m" by (simp add: win_def)
    have vals: "map completedOf win = replicate (length pre) c0 @ [c0 + 1..<m + (c0 + 1)]"
      unfolding win_def by (rule window_completed [OF pre])
    have wnth: "\<And>j. j < length win \<Longrightarrow>
        completedOf (win ! j) = (replicate (length pre) c0 @ [c0 + 1..<m + (c0 + 1)]) ! j"
    proof -
      fix j assume "j < length win"
      then have "map completedOf win ! j = completedOf (win ! j)" by (rule nth_map)
      then show "completedOf (win ! j) = (replicate (length pre) c0 @ [c0 + 1..<m + (c0 + 1)]) ! j"
        unfolding vals by (rule sym)
    qed
    note wv = window_values [of "length pre" c0 m]
    show ?thesis
    proof (intro allI impI)
      fix j
      assume j: "j < length (processFrom sched parse w octokit since cs i c0)"
        and v: "completedOf (processFrom sched parse w octokit since cs i c0 ! j) =
                  c0 + (length cs - i)"
      show "Suc j = length (processFrom sched parse w octokit since cs i c0)"
      proof (cases "BATCH_SIZE < length cs - i")
        case False
        then have "\<not> i + BATCH_SIZE < length cs" by simp
        then have r: "rest = []" unfolding rest_def by (rule processFrom_end)
        from False m have mm: "m = length cs - i" by simp
        from j r have jw: "j < length pre + m" by (simp add: all lw)
        with v r wnth [of j] have
          "(replicate (length pre) c0 @ [c0 + 1..<m + (c0 + 1)]) ! j = c0 + m"
          by (simp add: all lw mm)
        with wv jw pos have "Suc j = length pre + m" by blast
        with r show ?thesis by (simp add: all lw)
      next
        case big: True
        with m have mm: "m = BATCH_SIZE" by simp
        have notw: "\<not> j < length win"
        proof
          assume jw: "j < length win"
          then have "completedOf (win ! j) \<in> set (map completedOf win)"
            by (metis length_map nth_map nth_mem)
          then have "completedOf (win ! j) \<in> set (replicate (length pre) c0 @ [c0 + 1..<m + (c0 + 1)])"
            unfolding vals .
          with wv have "completedOf (win ! j) \<le> c0 + m" by blast
          moreover from jw v have "completedOf (win ! j) = c0 + (length cs - i)"
            by (simp add: all nth_append)
          ultimately show False using big mm by simp
        qed
        with j have jr: "j - length win < length rest" by (simp add: all)
        from notw v have "completedOf (rest ! (j - length win)) = c0 + (length cs - i)"
          by (simp add: all nth_append)
        moreover from big mm have "c0 + (length cs - i) = (c0 + m) + (length cs - (i + BATCH_SIZE))"
          by simp
        ultimately have vr: "completedOf (rest ! (j - length win)) =
            (c0 + m) + (length cs - (i + BATCH_SIZE))" by (simp only:)
        from True have "length cs - (i + BATCH_SIZE) < length cs - i" by (simp add: BATCH_SIZE_def)
        from less [OF this, of "c0 + m", folded rest_def] jr vr
        have "Suc (j - length win) = length rest" by blast
        with notw show ?thesis by (simp add: all)
      qed
    qed
  qed
qed

lemma processFrom_last_terminal:
  "i < length cs \<Longrightarrow>
   processFrom sched parse w octokit since cs i c0 \<noteq> [] \<and>
   isTerminal (last (processFrom sched parse w octokit since cs i c0))"
proof (induction "length cs - i" arbitrary: i c0 rule: less_induct)
  case less
  note True = \<open>i < length cs\<close>
  from processFrom_unfold [OF True, of c0 sched parse w octokit since]
  obtain pre batch res m where
    pos: "0 < m"
    and run: "processFrom sched parse w octokit since cs i c0 =
       (pre @ map (\<lambda>k. settledEvent batch k (c0 + k + 1) (length cs) (res k)) [0..<m]) @
       processFrom sched parse w octokit since cs (i + BATCH_SIZE) (c0 + m)"
    by blast
  define tl where "tl = map (\<lambda>k. settledEvent batch k (c0 + k + 1) (length cs) (res k)) [0..<m]"
  define rest where
    "rest = processFrom sched parse w octokit since cs (i + BATCH_SIZE) (c0 + m)"
  have all: "processFrom sched parse w octokit since cs i c0 = (pre @ tl) @ rest"
    unfolding run tl_def rest_def ..
  from pos have tne: "tl \<noteq> []" by (simp add: tl_def)
  then have "last tl \<in> set tl" by (rule last_in_set)
  then have tt: "isTerminal (last tl)" by (auto simp: tl_def settledEvent_fields)
  show ?case
  proof (cases "i + BATCH_SIZE < length cs")
    case False
    then have "rest = []" unfolding rest_def by (rule processFrom_end)
    with tne tt show ?thesis by (simp add: all)
  next
    case big: True
    from True have "length cs - (i + BATCH_SIZE) < length cs - i" by (simp add: BATCH_SIZE_def)
    from less(1) [OF this big, of "c0 + m", folded rest_def]
    have "rest \<noteq> []" and "isTerminal (last rest)" by simp_all
    then show ?thesis by (simp add: all)
  qed
qed

lemma doneEvent_fields:
  "type (doneEvent n) = Done \<and> completed (doneEvent n) = Some n \<and> total (doneEvent n) = Some n \<and>
   \<not> isTerminal (doneEvent n) \<and> completedOf (doneEvent n) = n"
  by (simp add: doneEvent_def isTerminal_def completedOf_def)

text \<open>
  Claim C1. For every schedule, every remote side and every batch of \<open>N\<close> companies the
  stream is a body without a \<^verbatim>\<open>done\<close> event followed by one \<^verbatim>\<open>done\<close> event, which
  carries \<open>completed = total = N\<close>. The stream holds exactly \<open>N\<close> \<^verbatim>\<open>result\<close> or
  \<^verbatim>\<open>error\<close> events, in order one for each company of the input, and exactly one
  \<^verbatim>\<open>done\<close> event.
\<close>

theorem processCompanies_stream:
  "\<exists>body. processCompanies sched parse w token0 since cs = body @ [doneEvent (length cs)] \<and>
     (\<forall>e \<in> set body. type e \<noteq> Done) \<and>
     type (doneEvent (length cs)) = Done \<and>
     completed (doneEvent (length cs)) = Some (length cs) \<and>
     total (doneEvent (length cs)) = Some (length cs) \<and>
     length (filter isTerminal (processCompanies sched parse w token0 since cs)) = length cs \<and>
     map company (filter isTerminal (processCompanies sched parse w token0 since cs)) =
       map (\<lambda>c. Some (company_name c)) cs \<and>
     filter (\<lambda>e. type e = Done) (processCompanies sched parse w token0 since cs) =
       [doneEvent (length cs)]"
proof -
  define body where "body = processFrom sched parse w (createOctokit token0) since cs 0 0"
  have all: "processCompanies sched parse w token0 since cs = body @ [doneEvent (length cs)]"
    by (simp add: processCompanies_def body_def)
  from processFrom_fields [of sched parse w "createOctokit token0" since cs 0 0]
  have nd: "\<forall>e \<in> set body. type e \<noteq> Done" unfolding body_def by blast
  from processFrom_terminal [of sched parse w "createOctokit token0" since cs 0 0]
  have names: "map company (filter isTerminal body) = map (\<lambda>c. Some (company_name c)) cs"
    unfolding body_def by simp
  have ft: "filter isTerminal (body @ [doneEvent (length cs)]) = filter isTerminal body"
    by (simp add: doneEvent_fields)
  from names have "length (map company (filter isTerminal body)) =
      length (map (\<lambda>c. Some (company_name c)) cs)" by (rule arg_cong)
  then have len: "length (filter isTerminal body) = length cs" by simp
  from nd have "filter (\<lambda>e. type e = Done) body = []" by simp
  then have fd: "filter (\<lambda>e. type e = Done) (body @ [doneEvent (length cs)]) =
      [doneEvent (length cs)]"
    by (simp add: doneEvent_fields)
  from all nd names len fd ft doneEvent_fields [of "length cs"]
  have "processCompanies sched parse w token0 since cs = body @ [doneEvent (length cs)] \<and>
     (\<forall>e \<in> set body. type e \<noteq> Done) \<and>
     type (doneEvent (length cs)) = Done \<and>
     completed (doneEvent (length cs)) = Some (length cs) \<and>
     total (doneEvent (length cs)) = Some (length cs) \<and>
     length (filter isTerminal (processCompanies sched parse w token0 since cs)) = length cs \<and>
     map company (filter isTerminal (processCompanies sched parse w token0 since cs)) =
       map (\<lambda>c. Some (company_name c)) cs \<and>
     filter (\<lambda>e. type e = Done) (processCompanies sched parse w token0 since cs) =
       [doneEvent (length cs)]"
    by (simp only:)
  then show ?thesis by (rule exI)
qed

theorem processCompanies_stream_witness:
  "map type (processCompanies (\<lambda>i. [0, 1, 0, 0, 0]) sampleParse sampleRemote ''secret'' sampleSince
        [acme, nowhere]) =
     [Progress, Progress, Progress, Progress, Progress, Result, Error, Done] \<and>
   (\<exists>body. processCompanies (\<lambda>i. [0, 1, 0, 0, 0]) sampleParse sampleRemote ''secret'' sampleSince
        [acme, nowhere] = body @ [doneEvent (length [acme, nowhere])] \<and>
     (\<forall>e \<in> set body. type e \<noteq> Done) \<and>
     type (doneEvent (length [acme, nowhere])) = Done \<and>
     completed (doneEvent (length [acme, nowhere])) = Some (length [acme, nowhere]) \<and>
     total (doneEvent (length [acme, nowhere])) = Some (length [acme, nowhere]) \<and>
     length (filter isTerminal (processCompanies (\<lambda>i. [0, 1, 0, 0, 0]) sampleParse sampleRemote
        ''secret'' sampleSince [acme, nowhere])) = length [acme, nowhere] \<and>
     map company (filter isTerminal (processCompanies (\<lambda>i. [0, 1, 0, 0, 0]) sampleParse sampleRemote
        ''secret'' sampleSince [acme, nowhere])) =
       map (\<lambda>c. Some (company_name c)) [acme, nowhere] \<and>
     filter (\<lambda>e. type e = Done) (processCompanies (\<lambda>i. [0, 1, 0, 0, 0]) sampleParse sampleRemote
        ''secret'' sampleSince [acme, nowhere]) =
       [doneEvent (length [acme, nowhere])])"
proof -
  have "map type (processCompanies (\<lambda>i. [0, 1, 0, 0, 0]) sampleParse sampleRemote ''secret'' sampleSince
        [acme, nowhere]) =
     [Progress, Progress, Progress, Progress, Progress, Result, Error, Done]"
    by code_simp
  with processCompanies_stream [of "\<lambda>i. [0, 1, 0, 0, 0]" sampleParse sampleRemote "''secret''"
      sampleSince "[acme, nowhere]"]
  show ?thesis by (intro conjI)
qed

text \<open>
  Claim C7, as amended. Along the stream \<^verbatim>\<open>completed\<close> never decreases, and every event
  carries it and \<open>total = N\<close>. An event whose \<^verbatim>\<open>completed\<close> equals the total is one of
  the last two events of the stream and is not a \<^verbatim>\<open>progress\<close> event: the counter
  reaches the total at the \<^verbatim>\<open>result\<close> or \<^verbatim>\<open>error\<close> event of the last company, and the
  \<^verbatim>\<open>done\<close> event repeats it.
\<close>

theorem completed_monotone:
  "sorted (map completedOf (processCompanies sched parse w token0 since cs)) \<and>
   (\<forall>e \<in> set (processCompanies sched parse w token0 since cs).
      total e = Some (length cs) \<and> completed e \<noteq> None) \<and>
   (\<forall>j < length (processCompanies sched parse w token0 since cs).
      completedOf (processCompanies sched parse w token0 since cs ! j) = length cs \<longrightarrow>
      length (processCompanies sched parse w token0 since cs) \<le> j + 2 \<and>
      type (processCompanies sched parse w token0 since cs ! j) \<noteq> Progress)"
proof -
  define body where "body = processFrom sched parse w (createOctokit token0) since cs 0 0"
  have all: "processCompanies sched parse w token0 since cs = body @ [doneEvent (length cs)]"
    by (simp add: processCompanies_def body_def)
  from processFrom_sorted [of sched parse w "createOctokit token0" since cs 0 0]
  have sb: "sorted (map completedOf body)"
    and bb: "\<forall>x \<in> set (map completedOf body). x \<le> length cs"
    unfolding body_def by simp_all
  have s: "sorted (map completedOf (body @ [doneEvent (length cs)]))"
    unfolding map_append sorted_append using sb bb by (simp add: doneEvent_fields)
  from processFrom_fields [of sched parse w "createOctokit token0" since cs 0 0]
  have "\<forall>e \<in> set body. total e = Some (length cs) \<and> completed e \<noteq> None"
    unfolding body_def by blast
  then have f: "\<forall>e \<in> set (body @ [doneEvent (length cs)]).
      total e = Some (length cs) \<and> completed e \<noteq> None"
    by (simp add: doneEvent_fields)
  have l: "\<forall>j < length (body @ [doneEvent (length cs)]).
      completedOf ((body @ [doneEvent (length cs)]) ! j) = length cs \<longrightarrow>
      length (body @ [doneEvent (length cs)]) \<le> j + 2 \<and>
      type ((body @ [doneEvent (length cs)]) ! j) \<noteq> Progress"
  proof (intro allI impI)
    fix j
    assume j: "j < length (body @ [doneEvent (length cs)])"
      and v: "completedOf ((body @ [doneEvent (length cs)]) ! j) = length cs"
    show "length (body @ [doneEvent (length cs)]) \<le> j + 2 \<and>
      type ((body @ [doneEvent (length cs)]) ! j) \<noteq> Progress"
    proof (cases "j < length body")
      case False
      with j have "j = length body" by simp
      then show ?thesis by (simp add: doneEvent_fields)
    next
      case True
      then have nth: "(body @ [doneEvent (length cs)]) ! j = body ! j" by (simp add: nth_append)
      with v have "completedOf (body ! j) = 0 + (length cs - 0)" by simp
      with processFrom_last [of sched parse w "createOctokit token0" since cs 0 0] True
      have last: "Suc j = length body" unfolding body_def by blast
      from True have "body \<noteq> []" by auto
      then have "0 < length cs" unfolding body_def by (auto simp: processFrom_end)
      from processFrom_last_terminal [OF this, of sched parse w "createOctokit token0" since 0]
      have "isTerminal (last body)" unfolding body_def by simp
      moreover have "last body = body ! j"
      proof -
        from last have e: "length body - 1 = j" by arith
        from \<open>body \<noteq> []\<close> have "last body = body ! (length body - 1)"
          by (rule last_conv_nth)
        then show ?thesis unfolding e .
      qed
      ultimately have "type (body ! j) \<noteq> Progress" by (auto simp: isTerminal_def)
      with last nth show ?thesis by simp
    qed
  qed
  from s f l show ?thesis unfolding all by (intro conjI)
qed

theorem completed_monotone_witness:
  "map completedOf (processCompanies (\<lambda>i. [0, 1, 0, 0, 0]) sampleParse sampleRemote ''secret''
        sampleSince [acme, nowhere]) = [0, 0, 0, 0, 0, 1, 2, 2] \<and>
   sorted (map completedOf (processCompanies (\<lambda>i. [0, 1, 0, 0, 0]) sampleParse sampleRemote ''secret''
        sampleSince [acme, nowhere])) \<and>
   6 < length (processCompanies (\<lambda>i. [0, 1, 0, 0, 0]) sampleParse sampleRemote ''secret''
        sampleSince [acme, nowhere]) \<and>
   completedOf (processCompanies (\<lambda>i. [0, 1, 0, 0, 0]) sampleParse sampleRemote ''secret''
        sampleSince [acme, nowhere] ! 6) = length [acme, nowhere] \<and>
   length (processCompanies (\<lambda>i. [0, 1, 0, 0, 0]) sampleParse sampleRemote ''secret''
        sampleSince [acme, nowhere]) \<le> 6 + 2 \<and>
   type (processCompanies (\<lambda>i. [0, 1, 0, 0, 0]) sampleParse sampleRemote ''secret''
        sampleSince [acme, nowhere] ! 6) \<noteq> Progress"
proof -
  have v: "map completedOf (processCompanies (\<lambda>i. [0, 1, 0, 0, 0]) sampleParse sampleRemote ''secret''
        sampleSince [acme, nowhere]) = [0, 0, 0, 0, 0, 1, 2, 2]"
    by code_simp
  have l: "6 < length (processCompanies (\<lambda>i. [0, 1, 0, 0, 0]) sampleParse sampleRemote ''secret''
        sampleSince [acme, nowhere])"
    by code_simp
  have c: "completedOf (processCompanies (\<lambda>i. [0, 1, 0, 0, 0]) sampleParse sampleRemote ''secret''
        sampleSince [acme, nowhere] ! 6) = length [acme, nowhere]"
    by code_simp
  note inst = completed_monotone [of "\<lambda>i. [0, 1, 0, 0, 0]" sampleParse sampleRemote "''secret''"
      sampleSince "[acme, nowhere]"]
  note last = inst [THEN conjunct2, THEN conjunct2, rule_format, OF l c]
  from v inst [THEN conjunct1] l c last [THEN conjunct1] last [THEN conjunct2]
  show ?thesis by (intro conjI)
qed

text \<open>
  Claim C7 as stated fails: for a batch of one company the stream has three events, and
  the second, an \<^verbatim>\<open>error\<close> event, already carries \<open>completed = total = 1\<close>.
\<close>

theorem completed_reaches_total_counterexample:
  "type (processCompanies (\<lambda>i. []) sampleParse sampleRemote ''secret'' sampleSince [nowhere] ! 1) = Error \<and>
   completed (processCompanies (\<lambda>i. []) sampleParse sampleRemote ''secret'' sampleSince [nowhere] ! 1) =
     Some 1 \<and>
   total (processCompanies (\<lambda>i. []) sampleParse sampleRemote ''secret'' sampleSince [nowhere] ! 1) =
     Some 1 \<and>
   length (processCompanies (\<lambda>i. []) sampleParse sampleRemote ''secret'' sampleSince [nowhere]) = 3"
  by code_simp

text \<open>
  Claim C8, as amended. In a window the counter goes up by one with each \<^verbatim>\<open>result\<close> or
  \<^verbatim>\<open>error\<close> event, from \<open>c0 + 1\<close> to \<open>c0\<close> plus the size of the window, and is
  \<open>c0\<close> on every other event of the window. The \<^verbatim>\<open>result\<close> and \<^verbatim>\<open>error\<close> events
  stand in the input order of the window under every schedule, hence whatever the order
  in which the entries settle; every entry settles exactly once.
\<close>

theorem window_terminal_order:
  "fst (snd (processBatch sched parse w octokit since batch c0 n)) = c0 + length batch \<and>
   map company (filter isTerminal (fst (processBatch sched parse w octokit since batch c0 n))) =
     map (\<lambda>c. Some (company_name c)) batch \<and>
   map completedOf (filter isTerminal (fst (processBatch sched parse w octokit since batch c0 n))) =
     [c0 + 1..<length batch + (c0 + 1)] \<and>
   (\<forall>e \<in> set (fst (processBatch sched parse w octokit since batch c0 n)).
      isTerminal e \<or> (type e = Progress \<and> completed e = Some c0)) \<and>
   distinct (snd (snd (processBatch sched parse w octokit since batch c0 n))) \<and>
   set (snd (snd (processBatch sched parse w octokit since batch c0 n))) = {0..<length batch}"
proof -
  define tl where
    "tl = map (\<lambda>k. settledEvent batch k (c0 + k + 1) n
                  (snd (analyzeCompany parse w octokit (batch ! k) since))) [0..<length batch]"
  from processBatch_spec [of sched parse w octokit since batch c0 n, folded tl_def]
  obtain pre settleOrder where
    pb: "processBatch sched parse w octokit since batch c0 n =
           (pre @ tl, c0 + length batch, settleOrder)"
    and pre: "\<forall>e \<in> set pre. type e = Progress \<and> completed e = Some c0 \<and> total e = Some n"
    and order: "distinct settleOrder" "set settleOrder = {0..<length batch}"
    by blast
  have ft: "filter isTerminal (pre @ tl) = tl"
    unfolding tl_def by (rule window_terminal [OF pre])
  have names: "map company tl = map (\<lambda>c. Some (company_name c)) batch"
    unfolding tl_def by (rule terminal_company)
  have vals: "map completedOf tl = [c0 + 1..<length batch + (c0 + 1)]"
    unfolding tl_def by (rule terminal_completed)
  have "\<forall>e \<in> set tl. isTerminal e" by (simp add: tl_def settledEvent_fields)
  with pre have kinds: "\<forall>e \<in> set (pre @ tl).
      isTerminal e \<or> (type e = Progress \<and> completed e = Some c0)"
    unfolding set_append by blast
  from ft names vals kinds order show ?thesis unfolding pb by simp
qed

theorem window_terminal_order_witness:
  "snd (snd (processBatch [0, 1, 0, 0, 0] sampleParse sampleRemote (createOctokit ''secret'')
        sampleSince [acme, nowhere] 0 2)) = [1, 0] \<and>
   fst (snd (processBatch [0, 1, 0, 0, 0] sampleParse sampleRemote (createOctokit ''secret'')
        sampleSince [acme, nowhere] 0 2)) = 0 + length [acme, nowhere] \<and>
   map company (filter isTerminal (fst (processBatch [0, 1, 0, 0, 0] sampleParse sampleRemote
        (createOctokit ''secret'') sampleSince [acme, nowhere] 0 2))) =
     map (\<lambda>c. Some (company_name c)) [acme, nowhere] \<and>
   map completedOf (filter isTerminal (fst (processBatch [0, 1, 0, 0, 0] sampleParse sampleRemote
        (createOctokit ''secret'') sampleSince [acme, nowhere] 0 2))) =
     [0 + 1..<length [acme, nowhere] + (0 + 1)]"
proof -
  have so: "snd (snd (processBatch [0, 1, 0, 0, 0] sampleParse sampleRemote (createOctokit ''secret'')
        sampleSince [acme, nowhere] 0 2)) = [1, 0]"
    by code_simp
  note inst = window_terminal_order [of "[0, 1, 0, 0, 0]" sampleParse sampleRemote
      "createOctokit ''secret''" sampleSince "[acme, nowhere]" 0 2]
  from so inst [THEN conjunct1] inst [THEN conjunct2, THEN conjunct1]
    inst [THEN conjunct2, THEN conjunct2, THEN conjunct1]
  show ?thesis by (intro conjI)
qed

text \<open>
  Claim C8 as stated fails: in the window of \<open>acme\<close> and \<open>nowhere\<close>, the second entry
  has a URL that does not resolve and settles without a remote call, before the first;
  the settle order is \<open>[1, 0]\<close>, yet the \<^verbatim>\<open>result\<close> and \<^verbatim>\<open>error\<close> events come in
  the input order, \<open>Acme\<close> before \<open>Nowhere\<close>.
\<close>

theorem settle_order_counterexample:
  "snd (snd (processBatch [0, 1, 0, 0, 0] sampleParse sampleRemote (createOctokit ''secret'')
        sampleSince [acme, nowhere] 0 2)) = [1, 0] \<and>
   map company (filter isTerminal (fst (processBatch [0, 1, 0, 0, 0] sampleParse sampleRemote
        (createOctokit ''secret'') sampleSince [acme, nowhere] 0 2))) =
     [Some ''Acme'', Some ''Nowhere''] \<and>
   map (\<lambda>i. Some (company_name ([acme, nowhere] ! i))) [1, 0] = [Some ''Nowhere'', Some ''Acme'']"
  by code_simp






















end
